theory Spec2Isabelle
  imports Complex_Main "HOL-Library.Log_Nat"
begin

section \<open>Python floats\<close>

text \<open>
  A Python \<^verbatim>\<open>float\<close> is an IEEE 754 binary64 value. The finite ones are kept as the
  rational number they denote; the two zeros are identified, which no operation used by
  \<^verbatim>\<open>calculate_grid\<close> can tell apart (a division by either zero raises, and
  \<^verbatim>\<open>int\<close> and \<^verbatim>\<open>math.ceil\<close> map both to 0).
\<close>

datatype pyfloat = Finite rat | PInf | NInf | NaN

datatype py_error = ZeroDivisionError | OverflowError | ValueError

definition pow2 :: "int \<Rightarrow> rat" where
  "pow2 e = (if 0 \<le> e then 2 ^ nat e else 1 / 2 ^ nat (- e))"

text \<open>The binary exponent of a positive rational: the largest \<open>k\<close> with \<open>2^k \<le> q\<close>.\<close>

definition ilog2 :: "rat \<Rightarrow> int" where
  "ilog2 q = (if 1 \<le> q then bitlen \<lfloor>q\<rfloor> - 1 else - bitlen (\<lceil>1 / q\<rceil> - 1))"

definition round_half_even :: "rat \<Rightarrow> int" where
  "round_half_even q =
     (let f = \<lfloor>q\<rfloor>; r = q - of_int f
      in if r < 1 / 2 then f else if 1 / 2 < r then f + 1 else if even f then f else f + 1)"

text \<open>
  Rounding to the nearest binary64 value, ties to even: 53 bits of significand, the
  exponent of the last place no smaller than \<open>-1074\<close> (subnormals), overflow to an
  infinity from \<open>2^1024\<close> on.
\<close>

definition fl :: "rat \<Rightarrow> pyfloat" where
  "fl q =
     (if q = 0 then Finite 0
      else let a = \<bar>q\<bar>;
               e = max (ilog2 a - 52) (- 1074);
               r = of_int (round_half_even (a / pow2 e)) * pow2 e
           in if pow2 1024 \<le> r then (if 0 < q then PInf else NInf)
              else Finite (if 0 < q then r else - r))"

definition sgn_f :: "pyfloat \<Rightarrow> rat" where
  "sgn_f x = (case x of Finite a \<Rightarrow> sgn a | PInf \<Rightarrow> 1 | NInf \<Rightarrow> - 1 | NaN \<Rightarrow> 0)"

definition inf_of_sign :: "rat \<Rightarrow> pyfloat" where
  "inf_of_sign t = (if 0 < t then PInf else if t < 0 then NInf else NaN)"

text \<open>\<^verbatim>\<open>x * y\<close> on floats.\<close>

definition fmul :: "pyfloat \<Rightarrow> pyfloat \<Rightarrow> pyfloat" where
  "fmul x y =
     (case (x, y) of
        (NaN, _) \<Rightarrow> NaN
      | (_, NaN) \<Rightarrow> NaN
      | (Finite a, Finite b) \<Rightarrow> fl (a * b)
      | _ \<Rightarrow> inf_of_sign (sgn_f x * sgn_f y))"

text \<open>\<^verbatim>\<open>x - y\<close> on floats.\<close>

definition fsub :: "pyfloat \<Rightarrow> pyfloat \<Rightarrow> pyfloat" where
  "fsub x y =
     (case (x, y) of
        (NaN, _) \<Rightarrow> NaN
      | (_, NaN) \<Rightarrow> NaN
      | (Finite a, Finite b) \<Rightarrow> fl (a - b)
      | (PInf, PInf) \<Rightarrow> NaN
      | (NInf, NInf) \<Rightarrow> NaN
      | (PInf, _) \<Rightarrow> PInf
      | (NInf, _) \<Rightarrow> NInf
      | (_, PInf) \<Rightarrow> NInf
      | (_, NInf) \<Rightarrow> PInf)"

text \<open>\<^verbatim>\<open>x / y\<close> on floats: Python raises on a zero divisor, whatever the dividend.\<close>

definition truediv :: "pyfloat \<Rightarrow> pyfloat \<Rightarrow> py_error + pyfloat" where
  "truediv x y =
     (case (x, y) of
        (_, Finite b) \<Rightarrow>
          (if b = 0 then Inl ZeroDivisionError
           else (case x of
                   Finite a \<Rightarrow> Inr (fl (a / b))
                 | NaN \<Rightarrow> Inr NaN
                 | _ \<Rightarrow> Inr (inf_of_sign (sgn_f x * sgn b))))
      | (NaN, _) \<Rightarrow> Inr NaN
      | (_, NaN) \<Rightarrow> Inr NaN
      | (Finite a, _) \<Rightarrow> Inr (Finite 0)
      | _ \<Rightarrow> Inr NaN)"

text \<open>
  The float an \<^verbatim>\<open>int\<close> operand is converted to, and \<^verbatim>\<open>a / b\<close> on ints, which
  Python rounds correctly. Both are only applied to the constants of \<^verbatim>\<open>__init__\<close>,
  far from the overflow these conversions raise on.
\<close>

definition float_of_int :: "int \<Rightarrow> pyfloat" where
  "float_of_int n = fl (of_int n)"

definition int_truediv :: "int \<Rightarrow> int \<Rightarrow> py_error + pyfloat" where
  "int_truediv a b = (if b = 0 then Inl ZeroDivisionError else Inr (fl (of_int a / of_int b)))"

text \<open>\<^verbatim>\<open>int(x)\<close> truncates towards zero; \<^verbatim>\<open>math.ceil(x)\<close>. Both raise on infinities and NaN.\<close>

definition py_int :: "pyfloat \<Rightarrow> py_error + int" where
  "py_int x =
     (case x of
        Finite q \<Rightarrow> Inr (if 0 \<le> q then \<lfloor>q\<rfloor> else \<lceil>q\<rceil>)
      | NaN \<Rightarrow> Inl ValueError
      | _ \<Rightarrow> Inl OverflowError)"

definition math_ceil :: "pyfloat \<Rightarrow> py_error + int" where
  "math_ceil x =
     (case x of
        Finite q \<Rightarrow> Inr \<lceil>q\<rceil>
      | NaN \<Rightarrow> Inl ValueError
      | _ \<Rightarrow> Inl OverflowError)"

text \<open>The float a decimal literal or a text field holding the decimal \<open>q\<close> parses to.\<close>

definition py_float :: "rat \<Rightarrow> pyfloat" where
  "py_float q = fl q"

section \<open>The application state\<close>

text \<open>
  What the sequencer thread does to the outside world, in the order it does it. A
  \<open>GCommand\<close> is a call of \<^verbatim>\<open>self.gantry.GCommand\<close>, recorded when it is made (also
  when the call then raises); \<open>ReadStop b\<close> is a read of the shared flag
  \<^verbatim>\<open>self.stop_imaging\<close> that saw \<open>b\<close>; sleeps are in milliseconds.
\<close>

datatype gcmd = PA int int | RP

datatype event =
    GCommand gcmd
  | SerWrite string
  | MegaWrite string
  | Makedirs
  | Sleep nat
  | Prompt nat string
  | ReadStop bool

text \<open>\<^verbatim>\<open>str(n)\<close> of a Python int, and the strings the f-strings of the source build.\<close>

function str_nat :: "nat \<Rightarrow> string" where
  "str_nat n =
     (if n < 10 then [char_of (48 + n)] else str_nat (n div 10) @ [char_of (48 + n mod 10)])"
  by pat_completeness auto
termination
  by (relation "measure (\<lambda>n. n)") auto

definition str_int :: "int \<Rightarrow> string" where
  "str_int i = (if i < 0 then CHR ''-'' # str_nat (nat (- i)) else str_nat (nat i))"

fun render :: "gcmd \<Rightarrow> string" where
  "render (PA x y) = ''PA '' @ str_int x @ '', '' @ str_int y @ '';BG''"
| "render RP = ''RP''"

definition pos_str :: "int \<Rightarrow> int \<Rightarrow> string" where
  "pos_str x y = str_int x @ '', '' @ str_int y"

text \<open>
  The rest of the world, as far as the sequencer thread meets it. Each oracle is asked
  with the events so far: \<open>gantry\<close> answers a \<^verbatim>\<open>GCommand\<close> (\<open>Inl\<close> the text of the
  exception it raises, \<open>Inr\<close> its reply), \<open>serial_io\<close> likewise a write to the camera
  controller, to the indicator board or to the file system (the reply is what the camera
  controller has waiting, empty for nothing). The user interface runs in another thread:
  it sets \<^verbatim>\<open>stop_imaging\<close> once, when the events number \<open>stop_at\<close> (never, for \<open>None\<close>; the
  flag is only cleared by \<^verbatim>\<open>start_imaging_sequence\<close>, which returns at once while a
  sequence runs), it holds the capture mode \<^verbatim>\<open>auto_capture\<close>, and \<open>continue_pressed\<close> tells
  whether the Continue button of the photo prompt has reset \<^verbatim>\<open>waiting_for_photo\<close>.
\<close>

record env =
  gantry :: "event list \<Rightarrow> string + string"
  serial_io :: "event list \<Rightarrow> string + string"
  stop_at :: "nat option"
  auto_capture :: "event list \<Rightarrow> bool"
  continue_pressed :: "event list \<Rightarrow> bool"

text \<open>
  The fields of \<^verbatim>\<open>IntegratedGantryCameraGUI\<close> the modelled methods use. \<^verbatim>\<open>start_x\<close> and
  \<^verbatim>\<open>start_y\<close> are \<^verbatim>\<open>None\<close> until a start position is set; \<^verbatim>\<open>x_inc\<close>, \<^verbatim>\<open>y_inc\<close>,
  \<^verbatim>\<open>x_steps\<close> and \<^verbatim>\<open>y_steps\<close> do not exist until \<^verbatim>\<open>calculate_grid\<close> has set them
  (\<open>None\<close> here). \<open>ser\<close> and \<open>arduino_mega\<close> tell whether the serial objects are there.
  \<open>aim_x\<close>, \<open>aim_y\<close> and \<open>image_count\<close> are the local variables of
  \<^verbatim>\<open>_imaging_thread\<close>, and \<open>trace\<close> collects the events.
\<close>

record gui =
  connected :: bool
  camera_connected :: bool
  ser :: bool
  arduino_mega :: bool
  step_size :: int
  current_x :: int
  current_y :: int
  start_x :: "int option"
  start_y :: "int option"
  x_dimension :: int
  y_dimension :: int
  overlap :: pyfloat
  fov_width_mm :: pyfloat
  x_limit :: int
  y_limit :: int
  x_inc :: "int option"
  y_inc :: "int option"
  x_steps :: "int option"
  y_steps :: "int option"
  is_imaging :: bool
  stop_imaging :: bool
  waiting_for_photo :: bool
  status_var :: string
  camera_info_var :: string
  aim_x :: int
  aim_y :: int
  image_count :: nat
  trace :: "event list"

definition camera_width_px :: int where "camera_width_px = 9504"
definition camera_height_px :: int where "camera_height_px = 6336"
definition x_scale :: int where "x_scale = 2500"
definition y_scale :: int where "y_scale = 6250"

text \<open>The state \<^verbatim>\<open>__init__\<close> leaves, with nothing connected.\<close>

definition init_gui :: gui where
  "init_gui =
     \<lparr>connected = False, camera_connected = False, ser = False, arduino_mega = False,
      step_size = 5000, current_x = 0, current_y = 0, start_x = None, start_y = None,
      x_dimension = 500000, y_dimension = 500000, overlap = py_float (2 / 10),
      fov_width_mm = py_float (26829 / 100), x_limit = 1660768, y_limit = 3084965,
      x_inc = None, y_inc = None, x_steps = None, y_steps = None,
      is_imaging = False, stop_imaging = False, waiting_for_photo = False,
      status_var = ''Disconnected'', camera_info_var = ''Camera not connected'',
      aim_x = 0, aim_y = 0, image_count = 0, trace = []\<rparr>"

section \<open>The grid planner\<close>

text \<open>
  \<^verbatim>\<open>calculate_grid\<close>. The four arguments are what \<^verbatim>\<open>float(...)\<close> makes of the four text
  fields, \<open>None\<close> where it raises \<^verbatim>\<open>ValueError\<close>. The body of the \<^verbatim>\<open>try\<close> returns
  \<open>Inr\<close> the state when it runs to its end, and \<open>Inl\<close> the exception with the state
  reached when it raises. The warning dialog on the safety limits changes nothing.
\<close>

definition calculate_grid_body ::
  "pyfloat option \<Rightarrow> pyfloat option \<Rightarrow> pyfloat option \<Rightarrow> pyfloat option \<Rightarrow> gui
     \<Rightarrow> (py_error \<times> gui) + gui" where
  "calculate_grid_body overlap_var x_dim_var y_dim_var fov_width_var s =
    (case overlap_var of None \<Rightarrow> Inl (ValueError, s) | Some percent \<Rightarrow>
    (case truediv percent (float_of_int 100) of Inl e \<Rightarrow> Inl (e, s) | Inr ov \<Rightarrow>
    (let s1 = s\<lparr>overlap := ov\<rparr> in
    (case x_dim_var of None \<Rightarrow> Inl (ValueError, s1) | Some x_dimension_mm \<Rightarrow>
    (case y_dim_var of None \<Rightarrow> Inl (ValueError, s1) | Some y_dimension_mm \<Rightarrow>
    (case fov_width_var of None \<Rightarrow> Inl (ValueError, s1) | Some w \<Rightarrow>
    (let s2 = s1\<lparr>fov_width_mm := w\<rparr> in
    (case py_int (fmul x_dimension_mm (float_of_int x_scale)) of
       Inl e \<Rightarrow> Inl (e, s2) | Inr xd \<Rightarrow>
    (let s3 = s2\<lparr>x_dimension := xd\<rparr> in
    (case py_int (fmul y_dimension_mm (float_of_int y_scale)) of
       Inl e \<Rightarrow> Inl (e, s3) | Inr yd \<Rightarrow>
    (let s4 = s3\<lparr>y_dimension := yd\<rparr> in
    (case int_truediv camera_height_px camera_width_px of
       Inl e \<Rightarrow> Inl (e, s4) | Inr aspect_ratio \<Rightarrow>
    (let fov_height_mm = fmul w aspect_ratio;
         x_step_mm = fmul w (fsub (float_of_int 1) ov);
         y_step_mm = fmul fov_height_mm (fsub (float_of_int 1) ov)
     in
    (case truediv x_dimension_mm x_step_mm of Inl e \<Rightarrow> Inl (e, s4) | Inr qx \<Rightarrow>
    (case math_ceil qx of Inl e \<Rightarrow> Inl (e, s4) | Inr cx \<Rightarrow>
    (case truediv y_dimension_mm y_step_mm of Inl e \<Rightarrow> Inl (e, s4) | Inr qy \<Rightarrow>
    (case math_ceil qy of Inl e \<Rightarrow> Inl (e, s4) | Inr cy \<Rightarrow>
    (case py_int (fmul x_step_mm (float_of_int x_scale)) of
       Inl e \<Rightarrow> Inl (e, s4) | Inr xi \<Rightarrow>
    (case py_int (fmul y_step_mm (float_of_int y_scale)) of
       Inl e \<Rightarrow> Inl (e, s4) | Inr yi \<Rightarrow>
       Inr (s4\<lparr>x_inc := Some xi, y_inc := Some yi,
               x_steps := Some (cx + 1), y_steps := Some (cy + 1),
               status_var := ''Grid calculation complete''\<rparr>))))))))))))))))))))"

text \<open>
  The method itself: \<^verbatim>\<open>except ValueError\<close> shows a dialog and returns; any other
  exception leaves the method.
\<close>

definition calculate_grid ::
  "pyfloat option \<Rightarrow> pyfloat option \<Rightarrow> pyfloat option \<Rightarrow> pyfloat option \<Rightarrow> gui
     \<Rightarrow> (py_error \<times> gui) + gui" where
  "calculate_grid overlap_var x_dim_var y_dim_var fov_width_var s =
    (case calculate_grid_body overlap_var x_dim_var y_dim_var fov_width_var s of
       Inl (e, s') \<Rightarrow> (if e = ValueError then Inr s' else Inl (e, s'))
     | Inr s' \<Rightarrow> Inr s')"

section \<open>Manual moves\<close>

definition emit :: "event \<Rightarrow> gui \<Rightarrow> gui" where
  "emit e s = s\<lparr>trace := trace s @ [e]\<rparr>"

definition sleep :: "nat \<Rightarrow> gui \<Rightarrow> gui" where
  "sleep ms s = emit (Sleep ms) s"

text \<open>
  \<^verbatim>\<open>self.gantry.GCommand(c)\<close>: \<open>Inl\<close> when the call raises, with the text of the
  exception, \<open>Inr\<close> with its reply otherwise; the state returned has the call recorded.
\<close>

definition gcommand :: "env \<Rightarrow> gcmd \<Rightarrow> gui \<Rightarrow> (string \<times> gui) + (string \<times> gui)" where
  "gcommand env c s =
     (case gantry env (trace s) of
        Inl msg \<Rightarrow> Inl (msg, emit (GCommand c) s)
      | Inr reply \<Rightarrow> Inr (reply, emit (GCommand c) s))"

definition move_gantry :: "env \<Rightarrow> int \<Rightarrow> int \<Rightarrow> gui \<Rightarrow> gui" where
  "move_gantry env x_change y_change s =
     (if \<not> connected s then s
      else let new_x = current_x s + x_change;
               new_y = current_y s + y_change
           in if new_x > x_limit s \<or> new_y > y_limit s
              then s\<lparr>status_var := ''Movement blocked by safety limits''\<rparr>
              else (case gcommand env (PA new_x new_y) s of
                      Inl (msg, s') \<Rightarrow> s'\<lparr>status_var := ''Movement error: '' @ msg\<rparr>
                    | Inr (reply, s') \<Rightarrow>
                        s'\<lparr>status_var :=
                             ''Moving to X: '' @ str_int new_x @ '', Y: '' @ str_int new_y\<rparr>))"

definition move_up :: "env \<Rightarrow> gui \<Rightarrow> gui" where
  "move_up env s = move_gantry env 0 (step_size s) s"

definition move_down :: "env \<Rightarrow> gui \<Rightarrow> gui" where
  "move_down env s = move_gantry env 0 (- step_size s) s"

definition move_left :: "env \<Rightarrow> gui \<Rightarrow> gui" where
  "move_left env s = move_gantry env (- step_size s) 0 s"

definition move_right :: "env \<Rightarrow> gui \<Rightarrow> gui" where
  "move_right env s = move_gantry env (step_size s) 0 s"

definition goto_home :: "env \<Rightarrow> gui \<Rightarrow> gui" where
  "goto_home env s =
     (if \<not> connected s then s
      else (case gcommand env (PA 0 0) s of
              Inl (msg, s') \<Rightarrow> s'\<lparr>status_var := ''Move to home error: '' @ msg\<rparr>
            | Inr (reply, s') \<Rightarrow> s'\<lparr>status_var := ''Moving to home position''\<rparr>))"

definition set_start_position :: "gui \<Rightarrow> gui" where
  "set_start_position s =
     (if \<not> connected s then s
      else s\<lparr>start_x := Some (current_x s), start_y := Some (current_y s),
             status_var := ''Start position set: X='' @ str_int (current_x s)
                             @ '', Y='' @ str_int (current_y s)\<rparr>)"

definition return_to_start_position :: "env \<Rightarrow> gui \<Rightarrow> gui" where
  "return_to_start_position env s =
     (if \<not> connected s then s
      else (case (start_x s, start_y s) of
              (Some sx, Some sy) \<Rightarrow>
                (let s1 = s\<lparr>status_var := ''Returning to start position: X='' @ str_int sx
                                            @ '', Y='' @ str_int sy\<rparr>
                 in case gcommand env (PA sx sy) s1 of
                      Inl (msg, s') \<Rightarrow> s'\<lparr>status_var := ''Return to start error: '' @ msg\<rparr>
                    | Inr (reply, s') \<Rightarrow> s')
            | _ \<Rightarrow> s))"

text \<open>
  \<^verbatim>\<open>apply_safety_limits\<close>, with the two numbers the entries hold and the answer to the
  confirmation dialog.
\<close>

definition apply_safety_limits :: "int \<Rightarrow> int \<Rightarrow> bool \<Rightarrow> gui \<Rightarrow> gui" where
  "apply_safety_limits new_x_limit new_y_limit confirmed s =
     (if new_x_limit \<le> 0 \<or> new_y_limit \<le> 0 then s
      else if confirmed then s\<lparr>x_limit := new_x_limit, y_limit := new_y_limit\<rparr>
      else s)"

section \<open>The camera\<close>

text \<open>
  \<^verbatim>\<open>send_camera_command\<close> writes the command and a newline, sleeps, and shows what the
  controller has waiting (an empty reply stands for nothing waiting). It catches its own
  exceptions and returns whether the command went out.
\<close>

definition send_camera_command :: "env \<Rightarrow> string \<Rightarrow> gui \<Rightarrow> bool \<times> gui" where
  "send_camera_command env cmd s =
     (if \<not> camera_connected s \<or> \<not> ser s
      then (False, s\<lparr>camera_info_var := ''Camera not connected''\<rparr>)
      else (case serial_io env (trace s) of
              Inl msg \<Rightarrow>
                (False, (emit (SerWrite (cmd @ [CHR 0x0A])) s)
                          \<lparr>camera_info_var := ''Command error: '' @ msg\<rparr>)
            | Inr written \<Rightarrow>
                (let s1 = sleep 500 (emit (SerWrite (cmd @ [CHR 0x0A])) s)
                 in case serial_io env (trace s1) of
                      Inl msg \<Rightarrow> (False, s1\<lparr>camera_info_var := ''Command error: '' @ msg\<rparr>)
                    | Inr response \<Rightarrow>
                        (True, if response = [] then s1
                               else s1\<lparr>camera_info_var := ''ESP32: '' @ response\<rparr>))))"

definition control_filter :: "env \<Rightarrow> bool \<Rightarrow> gui \<Rightarrow> gui" where
  "control_filter env filter_in s =
     (if \<not> camera_connected s then s
      else (case send_camera_command env (if filter_in then ''FILTER,ON'' else ''FILTER,OFF'') s of
              (success, s1) \<Rightarrow>
                if success
                then s1\<lparr>camera_info_var :=
                          (if filter_in then ''Filter in position'' else ''Filter moved away'')\<rparr>
                else s1))"

text \<open>
  The statements of the \<^verbatim>\<open>try\<close> block of \<^verbatim>\<open>take_both_photos\<close>: creating the directory,
  a write to the indicator board with the sleep that follows it (both skipped when there
  is no board), a camera command, a sleep. \<open>Inl\<close> is an exception leaving the statement.
\<close>

datatype photo_step = MkDir | Mega string nat | Cam string | Nap nat

fun do_step :: "env \<Rightarrow> photo_step \<Rightarrow> gui \<Rightarrow> (string \<times> gui) + gui" where
  "do_step env MkDir s =
     (case serial_io env (trace s) of
        Inl msg \<Rightarrow> Inl (msg, emit Makedirs s)
      | Inr r \<Rightarrow> Inr (emit Makedirs s))"
| "do_step env (Mega word ms) s =
     (if arduino_mega s
      then (case serial_io env (trace s) of
              Inl msg \<Rightarrow> Inl (msg, emit (MegaWrite (word @ [CHR 0x0A])) s)
            | Inr r \<Rightarrow> Inr (sleep ms (emit (MegaWrite (word @ [CHR 0x0A])) s)))
      else Inr s)"
| "do_step env (Cam cmd) s = Inr (snd (send_camera_command env cmd s))"
| "do_step env (Nap ms) s = Inr (sleep ms s)"

fun run_steps :: "env \<Rightarrow> photo_step list \<Rightarrow> gui \<Rightarrow> (string \<times> gui) + gui" where
  "run_steps env [] s = Inr s"
| "run_steps env (p # ps) s =
     (case do_step env p s of Inl e \<Rightarrow> Inl e | Inr s' \<Rightarrow> run_steps env ps s')"

definition take_both_photos :: "env \<Rightarrow> gui \<Rightarrow> gui" where
  "take_both_photos env s =
     (if \<not> camera_connected s then s
      else (case run_steps env
                  [MkDir, Mega ''RED'' 2000, Cam ''SHUTTER'', Nap 1000, Mega ''OFF'' 500,
                   Cam ''FILTER,ON'', Nap 1000, Mega ''GREEN'' 500, Cam ''SHUTTER'', Nap 1000,
                   Mega ''OFF'' 500, Cam ''FILTER,OFF''] s of
              Inl (msg, s') \<Rightarrow> s'\<lparr>camera_info_var := ''Photo sequence error: '' @ msg\<rparr>
            | Inr s' \<Rightarrow> s'\<lparr>camera_info_var := ''Successfully captured both photos''\<rparr>))"

section \<open>The imaging sequence\<close>

text \<open>
  A read of \<^verbatim>\<open>self.stop_imaging\<close> by the sequencer thread: the flag is set when the thread
  has set it itself or the user interface has by now.
\<close>

definition ui_stopped :: "env \<Rightarrow> nat \<Rightarrow> bool" where
  "ui_stopped env t = (case stop_at env of None \<Rightarrow> False | Some k \<Rightarrow> k \<le> t)"

definition read_stop :: "env \<Rightarrow> gui \<Rightarrow> bool \<times> gui" where
  "read_stop env s =
     (let b = (stop_imaging s \<or> ui_stopped env (length (trace s)))
      in (b, emit (ReadStop b) (s\<lparr>stop_imaging := b\<rparr>)))"

text \<open>
  How a piece of the thread ends: it runs on, it leaves the loop by \<^verbatim>\<open>break\<close> (or the
  method by \<^verbatim>\<open>return\<close>), or it raises an exception with the given text.
\<close>

datatype flow = Next gui | Break gui | Raise string gui

fun state_of :: "flow \<Rightarrow> gui" where
  "state_of (Next s) = s"
| "state_of (Break s) = s"
| "state_of (Raise msg s) = s"

text \<open>
  The polling loop after a move (lines 1214-1220 and 1271-1277): ask for the position
  until the reply is the string \<open>target\<close> or the stop flag is set. The loop may run for
  ever; \<open>None\<close> is that it does.
\<close>

partial_function (option) wait_position :: "env \<Rightarrow> string \<Rightarrow> gui \<Rightarrow> flow option" where
  "wait_position env target s =
     (case read_stop env s of
        (stop, s1) \<Rightarrow>
          if stop then Some (Next s1)
          else (case gcommand env RP s1 of
                  Inl (msg, s2) \<Rightarrow> Some (Raise msg s2)
                | Inr (pos, s2) \<Rightarrow>
                    if pos = target then Some (Next s2)
                    else wait_position env target (sleep 250 s2)))"

declare wait_position.simps [code]

text \<open>The wait for the Continue button in manual mode (lines 1304-1305).\<close>

partial_function (option) wait_continue :: "env \<Rightarrow> gui \<Rightarrow> gui option" where
  "wait_continue env s =
     (if continue_pressed env (trace s) then Some (s\<lparr>waiting_for_photo := False\<rparr>)
      else (case read_stop env s of
              (stop, s1) \<Rightarrow> if stop then Some s1 else wait_continue env (sleep 100 s1)))"

declare wait_continue.simps [code]

text \<open>
  The capture step at column \<open>x\<close> of row \<open>y\<close> (lines 1283-1305): count the image, then
  take the photos and pause, or show the prompt and wait for the user.
\<close>

definition capture :: "env \<Rightarrow> nat \<Rightarrow> nat \<Rightarrow> gui \<Rightarrow> gui option" where
  "capture env y x s =
     (let s1 = s\<lparr>image_count := image_count s + 1,
                 status_var := ''Position '' @ str_nat x @ '','' @ str_nat y @ '': Image #''
                                 @ str_nat (image_count s + 1)\<rparr>
      in if auto_capture env (trace s1)
         then Some (sleep 1000 (take_both_photos env s1))
         else wait_continue env
                (emit (Prompt (image_count s1) (str_nat x @ '','' @ str_nat y))
                   (s1\<lparr>waiting_for_photo := True\<rparr>)))"

text \<open>
  The body of the inner loop (lines 1246-1305) for column \<open>x\<close> of row \<open>y\<close>. The thread is
  only started once the start position and the grid are set; \<open>xi\<close> is \<^verbatim>\<open>self.x_inc\<close>.
\<close>

definition visit :: "env \<Rightarrow> int \<Rightarrow> nat \<Rightarrow> nat \<Rightarrow> gui \<Rightarrow> flow option" where
  "visit env xi y x s =
     (case read_stop env
             (if x \<noteq> 0
              then (if y mod 2 = 0 then s\<lparr>aim_x := aim_x s + xi\<rparr>
                    else s\<lparr>aim_x := aim_x s - xi\<rparr>)
              else s) of
        (stop, s1) \<Rightarrow>
          if stop then Some (Break s1)
          else if aim_x s1 > x_limit s1 \<or> aim_y s1 > y_limit s1
          then Some (Break (s1\<lparr>status_var :=
                                  ''Position '' @ str_nat x @ '','' @ str_nat y
                                    @ '' exceeds safety limits - stopping sequence'',
                                stop_imaging := True\<rparr>))
          else (case gcommand env (PA (aim_x s1) (aim_y s1)) s1 of
                  Inl (msg, s2) \<Rightarrow> Some (Raise msg s2)
                | Inr (reply, s2) \<Rightarrow>
                    (case wait_position env (pos_str (aim_x s2) (aim_y s2))
                            (s2\<lparr>status_var :=
                                  ''Moving to position '' @ str_nat x @ '','' @ str_nat y\<rparr>) of
                       None \<Rightarrow> None
                     | Some (Raise msg s3) \<Rightarrow> Some (Raise msg s3)
                     | Some r \<Rightarrow>
                         (case read_stop env (state_of r) of
                            (stop', s4) \<Rightarrow>
                              if stop' then Some (Break s4)
                              else (case capture env y x s4 of
                                      None \<Rightarrow> None
                                    | Some s5 \<Rightarrow> Some (Next s5))))))"

text \<open>The inner loop over the columns still to visit.\<close>

fun row_loop :: "env \<Rightarrow> int \<Rightarrow> nat \<Rightarrow> nat list \<Rightarrow> gui \<Rightarrow> flow option" where
  "row_loop env xi y [] s = Some (Next s)"
| "row_loop env xi y (x # xs) s =
     (case visit env xi y x s of
        None \<Rightarrow> None
      | Some (Next s') \<Rightarrow> row_loop env xi y xs s'
      | Some r \<Rightarrow> Some r)"

text \<open>
  The outer loop (lines 1236-1308) over the rows still to visit, for \<open>nx\<close> columns. After
  the inner loop, left by \<^verbatim>\<open>break\<close> or not, the flag is read again.
\<close>

fun grid_loop ::
  "env \<Rightarrow> int \<Rightarrow> int \<Rightarrow> int \<Rightarrow> int \<Rightarrow> nat \<Rightarrow> nat list \<Rightarrow> gui \<Rightarrow> flow option" where
  "grid_loop env sx sy xi yi nx [] s = Some (Next s)"
| "grid_loop env sx sy xi yi nx (y # ys) s =
     (case row_loop env xi y [0..<nx]
             (if y = 0 then s\<lparr>aim_x := sx, aim_y := sy\<rparr> else s\<lparr>aim_y := aim_y s + yi\<rparr>) of
        None \<Rightarrow> None
      | Some (Raise msg s1) \<Rightarrow> Some (Raise msg s1)
      | Some r \<Rightarrow>
          (case read_stop env (state_of r) of
             (stop, s2) \<Rightarrow>
               if stop then Some (Break s2) else grid_loop env sx sy xi yi nx ys s2))"

text \<open>
  The \<^verbatim>\<open>try\<close> block of \<^verbatim>\<open>_imaging_thread\<close>, for the start position \<open>(sx, sy)\<close>, the
  increments \<open>xi\<close>, \<open>yi\<close> and the step counts \<open>nx\<close>, \<open>ny\<close> the object holds.
\<close>

definition imaging_body ::
  "env \<Rightarrow> int \<Rightarrow> int \<Rightarrow> int \<Rightarrow> int \<Rightarrow> int \<Rightarrow> int \<Rightarrow> gui \<Rightarrow> flow option" where
  "imaging_body env sx sy xi yi nx ny s =
     (let s0 = s\<lparr>status_var := ''Moving to start position...''\<rparr>;
          s1 = (if camera_connected s0 then sleep 500 (control_filter env False s0) else s0)
      in case gcommand env (PA sx sy) s1 of
           Inl (msg, s2) \<Rightarrow> Some (Raise msg s2)
         | Inr (reply, s2) \<Rightarrow>
             (case wait_position env (pos_str sx sy) s2 of
                None \<Rightarrow> None
              | Some (Raise msg s3) \<Rightarrow> Some (Raise msg s3)
              | Some r \<Rightarrow>
                  (case read_stop env (state_of r) of
                     (stop, s4) \<Rightarrow>
                       if stop
                       then Some (Break (s4\<lparr>status_var := ''Imaging sequence stopped'',
                                             is_imaging := False\<rparr>))
                       else (case grid_loop env sx sy xi yi (nat nx) [0..<nat ny]
                                    (s4\<lparr>status_var := ''Imaging sequence started'',
                                        image_count := 0\<rparr>) of
                               None \<Rightarrow> None
                             | Some (Raise msg s5) \<Rightarrow> Some (Raise msg s5)
                             | Some r' \<Rightarrow>
                                 (case read_stop env (state_of r') of
                                    (stop', s6) \<Rightarrow>
                                      Some (Next (s6\<lparr>status_var :=
                                                       (if \<not> stop'
                                                        then ''Imaging sequence complete - ''
                                                               @ str_nat (image_count s6)
                                                               @ '' positions captured''
                                                        else ''Imaging sequence stopped''),
                                                     is_imaging := False\<rparr>)))))))"

text \<open>\<^verbatim>\<open>_imaging_thread\<close>: the block and its \<^verbatim>\<open>except Exception\<close> handler.\<close>

definition imaging_thread ::
  "env \<Rightarrow> int \<Rightarrow> int \<Rightarrow> int \<Rightarrow> int \<Rightarrow> int \<Rightarrow> int \<Rightarrow> gui \<Rightarrow> gui option" where
  "imaging_thread env sx sy xi yi nx ny s =
     (case imaging_body env sx sy xi yi nx ny s of
        None \<Rightarrow> None
      | Some (Raise msg s') \<Rightarrow>
          Some (s'\<lparr>status_var := ''Imaging error: '' @ msg, is_imaging := False\<rparr>)
      | Some r \<Rightarrow> Some (state_of r))"

text \<open>
  \<^verbatim>\<open>stop_imaging_sequence\<close>, the method of the user interface behind the Stop button,
  with the answer to its confirmation dialog. In a run of the thread the moment the user
  interface sets the flag, by this method or by \<^verbatim>\<open>emergency_stop\<close>, is \<open>stop_at\<close>.
\<close>

definition stop_imaging_sequence :: "bool \<Rightarrow> gui \<Rightarrow> gui" where
  "stop_imaging_sequence confirmed s =
     (if \<not> is_imaging s then s
      else if confirmed
      then s\<lparr>stop_imaging := True, status_var := ''Stopping imaging sequence...''\<rparr>
      else s)"

section \<open>The planner as the specification words it\<close>

text \<open>
  The closed forms of the specification, in exact arithmetic: the step distance is
  \<open>fov * (1 - overlap)\<close>, the step count \<open>ceil(area / step) + 1\<close>, the encoder increment
  the whole encoder steps in one step distance, and the height of the field of view its
  width times the aspect ratio of the camera, 6336 / 9504.
\<close>

definition spec_step_mm :: "rat \<Rightarrow> rat \<Rightarrow> rat" where
  "spec_step_mm fov ov = fov * (1 - ov)"

definition spec_steps :: "rat \<Rightarrow> rat \<Rightarrow> rat \<Rightarrow> int" where
  "spec_steps area fov ov = \<lceil>area / spec_step_mm fov ov\<rceil> + 1"

definition spec_increment :: "rat \<Rightarrow> rat \<Rightarrow> int \<Rightarrow> int" where
  "spec_increment fov ov scale = \<lfloor>spec_step_mm fov ov * of_int scale\<rfloor>"

definition spec_fov_height :: "rat \<Rightarrow> rat" where
  "spec_fov_height fov_width = fov_width * (6336 / 9504)"

section \<open>Predicates for the proofs\<close>

text \<open>A float that is not negative (NaN counts as such), and a finite one between two powers of 2.\<close>

definition nonneg_f :: "pyfloat \<Rightarrow> bool" where
  "nonneg_f x = (case x of Finite r \<Rightarrow> 0 \<le> r | PInf \<Rightarrow> True | NInf \<Rightarrow> False | NaN \<Rightarrow> True)"

definition in_range :: "int \<Rightarrow> int \<Rightarrow> pyfloat \<Rightarrow> bool" where
  "in_range lo hi x = (case x of Finite r \<Rightarrow> pow2 lo \<le> r \<and> r \<le> pow2 hi | _ \<Rightarrow> False)"

section \<open>Reading the record of a run\<close>

text \<open>The targets of the positioning commands in a piece of the record, in order.\<close>

fun moves :: "event list \<Rightarrow> (int \<times> int) list" where
  "moves [] = []"
| "moves (GCommand (PA x y) # es) = (x, y) # moves es"
| "moves (e # es) = moves es"

text \<open>
  The snake path as the specification words it: row \<open>y\<close> visits the columns from left to
  right when \<open>y\<close> is even and from right to left when it is odd, and lies \<open>y\<close> increments
  above the start.
\<close>

definition snake_col :: "nat \<Rightarrow> nat \<Rightarrow> nat \<Rightarrow> nat" where
  "snake_col nx y x = (if even y then x else nx - 1 - x)"

definition snake_cells :: "nat \<Rightarrow> nat \<Rightarrow> (nat \<times> nat) list" where
  "snake_cells nx ny = concat (map (\<lambda>y. map (\<lambda>x. (snake_col nx y x, y)) [0..<nx]) [0..<ny])"

definition cell_target :: "int \<Rightarrow> int \<Rightarrow> int \<Rightarrow> int \<Rightarrow> nat \<times> nat \<Rightarrow> int \<times> int" where
  "cell_target sx sy xi yi c = (sx + int (fst c) * xi, sy + int (snd c) * yi)"

definition snake_path :: "int \<Rightarrow> int \<Rightarrow> int \<Rightarrow> int \<Rightarrow> nat \<Rightarrow> nat \<Rightarrow> (int \<times> int) list" where
  "snake_path sx sy xi yi nx ny = map (cell_target sx sy xi yi) (snake_cells nx ny)"

text \<open>
  Nothing but reads of a set stop flag; and a record in which nothing but such reads
  follows the first of them.
\<close>

definition stop_reads :: "event list \<Rightarrow> bool" where
  "stop_reads es = list_all (\<lambda>e. e = ReadStop True) es"

fun quiet_after_stop :: "event list \<Rightarrow> bool" where
  "quiet_after_stop [] = True"
| "quiet_after_stop (e # es) = (if e = ReadStop True then stop_reads es else quiet_after_stop es)"

text \<open>
  Every motion command of the piece \<open>es\<close> of the record, which follows the events \<open>h\<close>,
  was answered and not refused with an exception.
\<close>

fun answered :: "env \<Rightarrow> event list \<Rightarrow> event list \<Rightarrow> bool" where
  "answered env h [] = True"
| "answered env h (e # es) =
     ((case e of GCommand c \<Rightarrow> (case gantry env h of Inl msg \<Rightarrow> False | Inr reply \<Rightarrow> True)
               | _ \<Rightarrow> True)
      \<and> answered env (h @ [e]) es)"

text \<open>The events a piece of the thread has added to the record of \<open>s\<close>.\<close>

definition added :: "gui \<Rightarrow> gui \<Rightarrow> event list" where
  "added s s' = drop (length (trace s)) (trace s')"

section \<open>Environments to run the sequencer in\<close>

text \<open>
  A gantry that has always arrived: it answers every command with the position last
  commanded, as the controller prints it. Nobody stops the sequence, the capture mode is
  automatic.
\<close>

fun last_target :: "event list \<Rightarrow> string" where
  "last_target [] = ''0, 0''"
| "last_target (GCommand (PA x y) # es) =
     (if moves es = [] then pos_str x y else last_target es)"
| "last_target (e # es) = last_target es"

definition arrived_env :: env where
  "arrived_env =
     \<lparr>gantry = (\<lambda>h. Inr (last_target h)), serial_io = (\<lambda>h. Inr []), stop_at = None,
      auto_capture = (\<lambda>h. True), continue_pressed = (\<lambda>h. True)\<rparr>"

text \<open>
  A gantry that reports the position without the blank after the comma, and a user who
  stops the sequence when the record has \<open>k\<close> events.
\<close>

fun last_target_packed :: "event list \<Rightarrow> string" where
  "last_target_packed [] = ''0,0''"
| "last_target_packed (GCommand (PA x y) # es) =
     (if moves es = [] then str_int x @ '','' @ str_int y else last_target_packed es)"
| "last_target_packed (e # es) = last_target_packed es"

definition packed_env :: "nat \<Rightarrow> env" where
  "packed_env k =
     \<lparr>gantry = (\<lambda>h. Inr (last_target_packed h)), serial_io = (\<lambda>h. Inr []), stop_at = Some k,
      auto_capture = (\<lambda>h. True), continue_pressed = (\<lambda>h. True)\<rparr>"


text \<open>
  The state after connecting the gantry, with limits 100 and 100; the two floats are those
  of \<^verbatim>\<open>__init__\<close>, 0.2 and 268.29.
\<close>

definition bench :: gui where
  "bench =
     \<lparr>connected = True, camera_connected = False, ser = False, arduino_mega = False,
      step_size = 5000, current_x = 0, current_y = 0, start_x = None, start_y = None,
      x_dimension = 500000, y_dimension = 500000,
      overlap = Finite (3602879701896397 / 18014398509481984),
      fov_width_mm = Finite (4719807593856369 / 17592186044416),
      x_limit = 100, y_limit = 100,
      x_inc = None, y_inc = None, x_steps = None, y_steps = None,
      is_imaging = True, stop_imaging = False, waiting_for_photo = False,
      status_var = ''Connected'', camera_info_var = ''Camera not connected'',
      aim_x = 0, aim_y = 0, image_count = 0, trace = []\<rparr>"

section \<open>Predicates for the proofs about the sequencer\<close>

text \<open>
  The targets the two loops compute, with the arithmetic of the source: \<open>ax\<close> and \<open>ay\<close> are
  \<^verbatim>\<open>aim_x\<close> and \<^verbatim>\<open>aim_y\<close> when the loop is entered.
\<close>

definition next_aim_x :: "int \<Rightarrow> nat \<Rightarrow> nat \<Rightarrow> int \<Rightarrow> int" where
  "next_aim_x xi y x ax = (if x \<noteq> 0 then (if y mod 2 = 0 then ax + xi else ax - xi) else ax)"

fun row_targets :: "int \<Rightarrow> nat \<Rightarrow> nat list \<Rightarrow> int \<Rightarrow> int \<Rightarrow> (int \<times> int) list" where
  "row_targets xi y [] ax ay = []"
| "row_targets xi y (x # xs) ax ay =
     (next_aim_x xi y x ax, ay) # row_targets xi y xs (next_aim_x xi y x ax) ay"

fun row_end :: "int \<Rightarrow> nat \<Rightarrow> nat list \<Rightarrow> int \<Rightarrow> int" where
  "row_end xi y [] ax = ax"
| "row_end xi y (x # xs) ax = row_end xi y xs (next_aim_x xi y x ax)"

fun grid_targets ::
  "int \<Rightarrow> int \<Rightarrow> int \<Rightarrow> int \<Rightarrow> nat \<Rightarrow> nat list \<Rightarrow> int \<Rightarrow> int \<Rightarrow> (int \<times> int) list" where
  "grid_targets sx sy xi yi nx [] ax ay = []"
| "grid_targets sx sy xi yi nx (y # ys) ax ay =
     row_targets xi y [0..<nx] (if y = 0 then sx else ax) (if y = 0 then sy else ay + yi)
       @ grid_targets sx sy xi yi nx ys
           (row_end xi y [0..<nx] (if y = 0 then sx else ax)) (if y = 0 then sy else ay + yi)"

text \<open>An event that is neither a motion command nor a read of the stop flag.\<close>

fun plain :: "event \<Rightarrow> bool" where
  "plain (GCommand c) = False"
| "plain (ReadStop b) = False"
| "plain e = True"

text \<open>
  A step of the thread that only adds plain events, and leaves the limits, the stop flag
  and the local variables of the thread alone.
\<close>

definition plain_step :: "gui \<Rightarrow> gui \<Rightarrow> bool" where
  "plain_step s s' =
     (trace s' = trace s @ added s s' \<and> list_all plain (added s s') \<and>
      x_limit s' = x_limit s \<and> y_limit s' = y_limit s \<and>
      stop_imaging s' = stop_imaging s \<and>
      aim_x s' = aim_x s \<and> aim_y s' = aim_y s \<and> image_count s' = image_count s \<and>
      camera_connected s' = camera_connected s \<and> ser s' = ser s \<and>
      arduino_mega s' = arduino_mega s)"

text \<open>
  How an exception shows in the events \<open>new\<close> added after \<open>h\<close>: the last of them is the
  motion command that raised it, and all before were answered.
\<close>

fun is_gcommand :: "event \<Rightarrow> bool" where
  "is_gcommand (GCommand c) = True"
| "is_gcommand e = False"

definition raise_ok :: "env \<Rightarrow> event list \<Rightarrow> event list \<Rightarrow> flow \<Rightarrow> bool" where
  "raise_ok env h new r =
     (case r of
        Raise msg s' \<Rightarrow>
          new \<noteq> [] \<and> answered env h (butlast new) \<and> is_gcommand (last new) \<and>
          gantry env (h @ butlast new) = Inl msg
      | _ \<Rightarrow> answered env h new)"

definition stopped_break :: "flow \<Rightarrow> bool" where
  "stopped_break r = (case r of Break s' \<Rightarrow> stop_imaging s' | _ \<Rightarrow> True)"

text \<open>What every piece of the thread that starts with a read of the stop flag keeps.\<close>

definition good :: "env \<Rightarrow> gui \<Rightarrow> flow \<Rightarrow> bool" where
  "good env s r =
     (trace (state_of r) = trace s @ added s (state_of r) \<and>
      x_limit (state_of r) = x_limit s \<and> y_limit (state_of r) = y_limit s \<and>
      (if stop_imaging s
       then stop_imaging (state_of r) \<and> stop_reads (added s (state_of r)) else True) \<and>
      (if ReadStop True \<in> set (added s (state_of r)) then stop_imaging (state_of r) else True) \<and>
      quiet_after_stop (added s (state_of r)) \<and>
      raise_ok env (trace s) (added s (state_of r)) r \<and>
      stopped_break r)"

text \<open>
  A piece of the thread that issues no positioning command and leaves the local variables
  of the thread alone.
\<close>

definition kept :: "gui \<Rightarrow> gui \<Rightarrow> bool" where
  "kept s s' =
     (trace s' = trace s @ added s s' \<and> moves (added s s') = [] \<and>
      aim_x s' = aim_x s \<and> aim_y s' = aim_y s \<and> image_count s' = image_count s \<and>
      camera_connected s' = camera_connected s)"

text \<open>
  A piece of the thread that is to move to the targets \<open>tg\<close>, one after the other: it has
  moved to the first of them, as many as it came to, each within the limits, and it has
  captured at no more positions than it has moved to; when it runs on, it has been at all.
\<close>

definition run_post :: "gui \<Rightarrow> (int \<times> int) list \<Rightarrow> flow \<Rightarrow> bool" where
  "run_post s tg r =
     (take (length (moves (added s (state_of r)))) tg = moves (added s (state_of r)) \<and>
      length (moves (added s (state_of r))) \<le> length tg \<and>
      list_all (\<lambda>t. fst t \<le> x_limit s \<and> snd t \<le> y_limit s) (moves (added s (state_of r))) \<and>
      image_count (state_of r) \<le> image_count s + length (moves (added s (state_of r))) \<and>
      camera_connected (state_of r) = camera_connected s \<and>
      (case r of
         Next s' \<Rightarrow> moves (added s s') = tg \<and> image_count s' = image_count s + length tg
       | _ \<Rightarrow> True))"

text \<open>Where \<^verbatim>\<open>aim_x\<close> stands when row \<open>y\<close> of \<open>nx\<close> columns begins.\<close>

definition row_start :: "int \<Rightarrow> int \<Rightarrow> nat \<Rightarrow> nat \<Rightarrow> int" where
  "row_start sx xi nx y = (if even y then sx else sx + (int nx - 1) * xi)"


text \<open>
  How a run of the thread that was to visit the targets \<open>P\<close> and has moved to the targets
  \<open>m\<close> ends: the targets moved to are the first of \<open>P\<close>, each within the limits, no more
  positions were captured than moved to, and the status tells whether all were visited.
\<close>

definition stopped_msg :: string where
  "stopped_msg = ''Imaging sequence stopped''"

definition complete_msg :: "nat \<Rightarrow> string" where
  "complete_msg n = ''Imaging sequence complete - '' @ str_nat n @ '' positions captured''"

definition seq_post :: "gui \<Rightarrow> (int \<times> int) list \<Rightarrow> (int \<times> int) list \<Rightarrow> flow \<Rightarrow> bool" where
  "seq_post s P m r =
     (take (length m) P = m \<and>
      list_all (\<lambda>t. fst t \<le> x_limit s \<and> snd t \<le> y_limit s) m \<and>
      image_count (state_of r) \<le> image_count s + length m \<and>
      (case r of
         Next s' \<Rightarrow>
           \<not> is_imaging s' \<and>
           (if stop_imaging s' then status_var s' = stopped_msg
            else status_var s' = complete_msg (image_count s') \<and> m = P \<and>
                 image_count s' = length P)
       | Break s' \<Rightarrow> status_var s' = stopped_msg \<and> \<not> is_imaging s'
       | Raise msg s' \<Rightarrow> True))"

text \<open>The events of \<open>n\<close> rounds of the polling loop that did not find the target.\<close>

definition polls :: "nat \<Rightarrow> event list" where
  "polls n = concat (replicate n [ReadStop False, GCommand RP, Sleep 250])"

section \<open>Rounding\<close>

lemma pow2_powi: "pow2 e = power_int 2 e"
  by (simp add: pow2_def power_int_def inverse_eq_divide power_divide)

lemma pow2_pos: "0 < pow2 e"
  by (simp add: pow2_powi)

lemma pow2_add: "pow2 (a + b) = pow2 a * pow2 b"
  by (simp add: pow2_powi power_int_add)

lemma pow2_mono: "a \<le> b \<Longrightarrow> pow2 a \<le> pow2 b"
  by (simp add: pow2_powi power_int_increasing)

lemma pow2_strict_mono: "a < b \<Longrightarrow> pow2 a < pow2 b"
  by (simp add: pow2_powi power_int_strict_increasing)

lemma pow2_nat: "pow2 (int n) = 2 ^ n"
  by (simp add: pow2_def)

lemma pow2_neg_nat: "pow2 (- int n) = 1 / 2 ^ n"
  by (simp add: pow2_def)

lemma ilog2_lower: 
  assumes "0 < q" shows "pow2 (ilog2 q) \<le> q"
proof (cases "1 \<le> q")
  case True
  then have pos: "0 < \<lfloor>q\<rfloor>" by linarith
  from bitlen_bounds[OF pos] have "2 ^ nat (bitlen \<lfloor>q\<rfloor> - 1) \<le> \<lfloor>q\<rfloor>" by simp
  then have "(of_int (2 ^ nat (bitlen \<lfloor>q\<rfloor> - 1)) :: rat) \<le> of_int \<lfloor>q\<rfloor>"
    by (simp only: of_int_le_iff)
  also have "\<dots> \<le> q" by simp
  finally have "(2::rat) ^ nat (bitlen \<lfloor>q\<rfloor> - 1) \<le> q" by simp
  moreover have "1 \<le> bitlen \<lfloor>q\<rfloor>" using pos by (simp add: bitlen_alt_def)
  ultimately show ?thesis using True by (simp add: ilog2_def pow2_def)
next
  case False
  define c where "c = \<lceil>1 / q\<rceil>"
  have "1 < 1 / q" using False assms by simp
  then have c2: "2 \<le> c" unfolding c_def by linarith
  then have pos: "0 < c - 1" by simp
  from bitlen_bounds[OF pos] have "c - 1 < 2 ^ nat (bitlen (c - 1))" by simp
  then have "c \<le> 2 ^ nat (bitlen (c - 1))" by simp
  then have "(of_int c :: rat) \<le> of_int (2 ^ nat (bitlen (c - 1)))"
    by (simp only: of_int_le_iff)
  then have "(of_int c :: rat) \<le> 2 ^ nat (bitlen (c - 1))" by simp
  moreover have "1 / q \<le> of_int c" unfolding c_def by simp
  ultimately have "1 / q \<le> 2 ^ nat (bitlen (c - 1))" by linarith
  then have "1 \<le> 2 ^ nat (bitlen (c - 1)) * q" using assms by (simp add: field_simps)
  then have "1 / 2 ^ nat (bitlen (c - 1)) \<le> q" by (simp add: field_simps)
  moreover have "0 \<le> bitlen (c - 1)" by (rule bitlen_nonneg)
  ultimately show ?thesis using False
    by (cases "bitlen (c - 1) = 0") (simp_all add: ilog2_def pow2_def c_def)
qed

lemma ilog2_upper: 
  assumes "0 < q" shows "q < pow2 (ilog2 q + 1)"
proof (cases "1 \<le> q")
  case True
  then have pos: "0 < \<lfloor>q\<rfloor>" by linarith
  from bitlen_bounds[OF pos] have "\<lfloor>q\<rfloor> < 2 ^ nat (bitlen \<lfloor>q\<rfloor>)" by simp
  then have "\<lfloor>q\<rfloor> + 1 \<le> 2 ^ nat (bitlen \<lfloor>q\<rfloor>)" by simp
  then have "(of_int (\<lfloor>q\<rfloor> + 1) :: rat) \<le> of_int (2 ^ nat (bitlen \<lfloor>q\<rfloor>))"
    by (simp only: of_int_le_iff)
  then have "(of_int \<lfloor>q\<rfloor> + 1 :: rat) \<le> 2 ^ nat (bitlen \<lfloor>q\<rfloor>)" by simp
  moreover have "q < of_int \<lfloor>q\<rfloor> + 1" by linarith
  ultimately have "q < 2 ^ nat (bitlen \<lfloor>q\<rfloor>)" by linarith
  moreover have "0 \<le> bitlen \<lfloor>q\<rfloor>" by (rule bitlen_nonneg)
  ultimately show ?thesis using True by (simp add: ilog2_def pow2_def)
next
  case False
  define c where "c = \<lceil>1 / q\<rceil>"
  have "1 < 1 / q" using False assms by simp
  then have c2: "2 \<le> c" unfolding c_def by linarith
  then have pos: "0 < c - 1" by simp
  have b1: "1 \<le> bitlen (c - 1)" using pos by (simp add: bitlen_alt_def)
  from bitlen_bounds[OF pos] have "2 ^ nat (bitlen (c - 1) - 1) \<le> c - 1" by simp
  then have "(of_int (2 ^ nat (bitlen (c - 1) - 1)) :: rat) \<le> of_int (c - 1)"
    by (simp only: of_int_le_iff)
  then have "(2 :: rat) ^ nat (bitlen (c - 1) - 1) \<le> of_int c - 1" by simp
  moreover have "of_int c - 1 < 1 / q" unfolding c_def by linarith
  ultimately have "2 ^ nat (bitlen (c - 1) - 1) < 1 / q" by linarith
  then have lt: "q * 2 ^ nat (bitlen (c - 1) - 1) < 1" using assms by (simp add: field_simps)
  show ?thesis
  proof (cases "bitlen (c - 1) = 1")
    case True
    with lt False show ?thesis by (simp add: ilog2_def pow2_def c_def)
  next
    case F: False
    with b1 have "- bitlen (c - 1) + 1 < 0" by simp
    moreover have "nat (bitlen (c - 1) - 1) = nat (- (- bitlen (c - 1) + 1))" by simp
    ultimately show ?thesis using lt False assms
      by (simp add: ilog2_def pow2_def c_def field_simps)
  qed
qed

lemma ilog2_unique:
  assumes "0 < q" "pow2 k \<le> q" "q < pow2 (k + 1)"
  shows "ilog2 q = k"
proof (rule ccontr)
  assume "ilog2 q \<noteq> k"
  then consider "ilog2 q + 1 \<le> k" | "k + 1 \<le> ilog2 q" by linarith
  then show False
  proof cases
    case 1
    from pow2_mono[OF 1] ilog2_upper[OF assms(1)] assms(2) show False by linarith
  next
    case 2
    from pow2_mono[OF 2] ilog2_lower[OF assms(1)] assms(3) show False by linarith
  qed
qed

lemma round_half_even_ge: "\<lfloor>q\<rfloor> \<le> round_half_even q"
  by (simp add: round_half_even_def Let_def)

lemma round_half_even_le: "round_half_even q \<le> \<lceil>q\<rceil>"
  unfolding round_half_even_def Let_def by (auto; linarith)

lemma round_half_even_eval:
  "of_int n - 1 / 2 < q \<Longrightarrow> q < of_int n + 1 / 2 \<Longrightarrow> round_half_even q = n"
  unfolding round_half_even_def Let_def by (auto; linarith)


lemma round_half_even_tie:
  "q = of_int n + 1 / 2 \<Longrightarrow> round_half_even q = (if even n then n else n + 1)"
proof -
  assume q: "q = of_int n + 1 / 2"
  have f: "\<lfloor>q\<rfloor> = n" unfolding q by linarith
  show ?thesis unfolding round_half_even_def Let_def f by (simp add: q)
qed

lemma rnd_lower:
  assumes "pow2 a \<le> q" "e \<le> a"
  shows "pow2 a \<le> of_int (round_half_even (q / pow2 e)) * pow2 e"
proof -
  have "pow2 (a - e) * pow2 e = pow2 a" using pow2_add[of "a - e" e] by simp
  then have "pow2 (a - e) \<le> q / pow2 e"
    using assms(1) pow2_pos[of e] by (simp add: field_simps)
  moreover have "pow2 (a - e) = of_int (2 ^ nat (a - e))"
    using assms(2) by (simp add: pow2_def)
  ultimately have "of_int (2 ^ nat (a - e)) \<le> q / pow2 e" by simp
  then have "2 ^ nat (a - e) \<le> \<lfloor>q / pow2 e\<rfloor>" by (simp only: le_floor_iff)
  then have "2 ^ nat (a - e) \<le> round_half_even (q / pow2 e)"
    using round_half_even_ge[of "q / pow2 e"] by linarith
  then have "(of_int (2 ^ nat (a - e)) :: rat) \<le> of_int (round_half_even (q / pow2 e))"
    by (simp only: of_int_le_iff)
  then have "pow2 (a - e) * pow2 e \<le> of_int (round_half_even (q / pow2 e)) * pow2 e"
    using pow2_pos[of e] \<open>pow2 (a - e) = of_int (2 ^ nat (a - e))\<close>
    by (simp only: mult_le_cancel_right) simp
  then show ?thesis using \<open>pow2 (a - e) * pow2 e = pow2 a\<close> by simp
qed

lemma rnd_upper:
  assumes "q \<le> pow2 b" "e \<le> b"
  shows "of_int (round_half_even (q / pow2 e)) * pow2 e \<le> pow2 b"
proof -
  have eq: "pow2 (b - e) * pow2 e = pow2 b" using pow2_add[of "b - e" e] by simp
  then have "q / pow2 e \<le> pow2 (b - e)"
    using assms(1) pow2_pos[of e] by (simp add: field_simps)
  moreover have p: "pow2 (b - e) = of_int (2 ^ nat (b - e))"
    using assms(2) by (simp add: pow2_def)
  ultimately have "q / pow2 e \<le> of_int (2 ^ nat (b - e))" by simp
  then have "\<lceil>q / pow2 e\<rceil> \<le> 2 ^ nat (b - e)" by (simp only: ceiling_le_iff)
  then have "round_half_even (q / pow2 e) \<le> 2 ^ nat (b - e)"
    using round_half_even_le[of "q / pow2 e"] by linarith
  then have "(of_int (round_half_even (q / pow2 e)) :: rat) \<le> of_int (2 ^ nat (b - e))"
    by (simp only: of_int_le_iff)
  then have "of_int (round_half_even (q / pow2 e)) * pow2 e \<le> pow2 (b - e) * pow2 e"
    using pow2_pos[of e] p by (simp only: mult_le_cancel_right) simp
  then show ?thesis using eq by simp
qed

lemma fl_pos_unfold:
  assumes "0 < q"
  shows "fl q =
     (let r = of_int (round_half_even (q / pow2 (max (ilog2 q - 52) (- 1074))))
                * pow2 (max (ilog2 q - 52) (- 1074))
      in if pow2 1024 \<le> r then PInf else Finite r)"
  using assms by (simp add: fl_def Let_def)

lemma fl_bounds:
  assumes "0 < q" "pow2 lo \<le> q" "q \<le> pow2 hi" "- 1074 \<le> lo" "hi \<le> 1023"
  shows "\<exists>r. fl q = Finite r \<and> pow2 lo \<le> r \<and> r \<le> pow2 hi"
proof -
  define k where "k = ilog2 q"
  define e where "e = max (k - 52) (- 1074)"
  define r where "r = of_int (round_half_even (q / pow2 e)) * pow2 e"
  have lk: "lo \<le> k"
  proof (rule ccontr)
    assume "\<not> lo \<le> k"
    then have "k + 1 \<le> lo" by simp
    from pow2_mono[OF this] ilog2_upper[OF assms(1)] assms(2) show False
      unfolding k_def by linarith
  qed
  have kh: "k \<le> hi"
  proof (rule ccontr)
    assume "\<not> k \<le> hi"
    then have "hi < k" by simp
    from pow2_strict_mono[OF this] ilog2_lower[OF assms(1)] assms(3) show False
      unfolding k_def by linarith
  qed
  have ek: "e \<le> k" unfolding e_def using lk assms(4) by simp
  have up: "r \<le> pow2 hi" unfolding r_def using rnd_upper[OF assms(3)] ek kh by simp
  have "pow2 k \<le> r" unfolding r_def
    using rnd_lower[OF _ ek] ilog2_lower[OF assms(1)] unfolding k_def by simp
  then have low: "pow2 lo \<le> r" using pow2_mono[OF lk] by linarith
  have "pow2 hi < pow2 1024" using assms(5) by (intro pow2_strict_mono) simp
  then have "\<not> pow2 1024 \<le> r" using up by linarith
  then have "fl q = Finite r"
    unfolding fl_pos_unfold[OF assms(1)] Let_def r_def e_def k_def by simp
  with low up show ?thesis by blast
qed

lemma fl_eval:
  assumes "0 < q" "pow2 k \<le> q" "q < pow2 (k + 1)" "- 1074 \<le> k" "k \<le> 1022"
    and "round_half_even (q / pow2 (max (k - 52) (- 1074))) = m"
    and "r = of_int m * pow2 (max (k - 52) (- 1074))"
  shows "fl q = Finite r"
proof -
  have k: "ilog2 q = k" using assms(1-3) by (rule ilog2_unique)
  have "max (k - 52) (- 1074) \<le> k + 1" using assms(4) by simp
  from rnd_upper[OF _ this, of q] assms(3)
  have "r \<le> pow2 (k + 1)" unfolding assms(7) assms(6)[symmetric] by simp
  moreover have "pow2 (k + 1) < pow2 1024" using assms(5) by (intro pow2_strict_mono) simp
  ultimately have "\<not> pow2 1024 \<le> r" by linarith
  then show ?thesis
    unfolding fl_pos_unfold[OF assms(1)] Let_def k assms(6) using assms(7) by simp
qed

lemma fl_neg:
  assumes "q < 0" "fl (- q) = Finite r"
  shows "fl q = Finite (- r)"
  using assms by (auto simp: fl_def Let_def split: if_splits)

lemma fl_nonneg:
  assumes "0 \<le> q"
  shows "case fl q of Finite r \<Rightarrow> 0 \<le> r | PInf \<Rightarrow> True | _ \<Rightarrow> False"
proof (cases "q = 0")
  case True
  then show ?thesis by (simp add: fl_def)
next
  case False
  with assms have pos: "0 < q" by simp
  define e where "e = max (ilog2 q - 52) (- 1074)"
  have "0 \<le> q / pow2 e" using pos pow2_pos[of e] by simp
  then have "0 \<le> \<lfloor>q / pow2 e\<rfloor>" by simp
  then have "0 \<le> round_half_even (q / pow2 e)"
    using round_half_even_ge[of "q / pow2 e"] by linarith
  then have "0 \<le> of_int (round_half_even (q / pow2 e)) * pow2 e"
    using pow2_pos[of e] by simp
  then show ?thesis unfolding fl_pos_unfold[OF pos] Let_def e_def by simp
qed

lemma round_half_even_tie_eval:
  "q = of_int n + 1 / 2 \<Longrightarrow> m = (if even n then n else n + 1) \<Longrightarrow> round_half_even q = m"
  by (simp add: round_half_even_tie)

lemma fl_neg_eval:
  "q < 0 \<Longrightarrow> fl (- q) = Finite r \<Longrightarrow> v = - r \<Longrightarrow> fl q = Finite v"
  by (simp add: fl_neg)

section \<open>The planner on explicit inputs\<close>

text \<open>The constants of the planner as floats.\<close>

lemma k_f100: "float_of_int 100 = Finite 100"
  unfolding float_of_int_def
  apply (rule fl_eval[where k = "6" and m = 7036874417766400])
        apply (simp_all add: pow2_def)
  apply (rule round_half_even_eval)
   apply simp_all
  done

lemma k_f1: "float_of_int 1 = Finite 1"
  unfolding float_of_int_def
  apply (rule fl_eval[where k = "0" and m = 4503599627370496])
        apply (simp_all add: pow2_def)
  apply (rule round_half_even_eval)
   apply simp_all
  done

lemma k_xscale: "float_of_int x_scale = Finite 2500"
  unfolding float_of_int_def x_scale_def
  apply (rule fl_eval[where k = "11" and m = 5497558138880000])
        apply (simp_all add: pow2_def)
  apply (rule round_half_even_eval)
   apply simp_all
  done

lemma k_yscale: "float_of_int y_scale = Finite 6250"
  unfolding float_of_int_def y_scale_def
  apply (rule fl_eval[where k = "12" and m = 6871947673600000])
        apply (simp_all add: pow2_def)
  apply (rule round_half_even_eval)
   apply simp_all
  done

lemma k_aspect: "int_truediv camera_height_px camera_width_px = Inr (Finite (6004799503160661 / 9007199254740992))"
proof -
  have "fl (6336 / 9504) = Finite (6004799503160661 / 9007199254740992)"
    apply (rule fl_eval[where k = "(- 1)" and m = 6004799503160661])
          apply (simp_all add: pow2_def)
    apply (rule round_half_even_eval)
     apply simp_all
    done
  then show ?thesis
    by (simp add: int_truediv_def camera_height_px_def camera_width_px_def)
qed

text \<open>Overlap 20, area 500 by 500, field of view 268.29.\<close>

lemma ex_percent: "py_float 20 = Finite 20"
  unfolding py_float_def
  apply (rule fl_eval[where k = "4" and m = 5629499534213120])
        apply (simp_all add: pow2_def)
  apply (rule round_half_even_eval)
   apply simp_all
  done

lemma ex_ax: "py_float 500 = Finite 500"
  unfolding py_float_def
  apply (rule fl_eval[where k = "8" and m = 8796093022208000])
        apply (simp_all add: pow2_def)
  apply (rule round_half_even_eval)
   apply simp_all
  done

lemma ex_w: "py_float (26829 / 100) = Finite (4719807593856369 / 17592186044416)"
  unfolding py_float_def
  apply (rule fl_eval[where k = "8" and m = 4719807593856369])
        apply (simp_all add: pow2_def)
  apply (rule round_half_even_eval)
   apply simp_all
  done

lemma ex_ov: "truediv (Finite 20) (Finite 100) = Inr (Finite (3602879701896397 / 18014398509481984))"
proof -
  have "fl (20 / 100) = Finite (3602879701896397 / 18014398509481984)"
    apply (rule fl_eval[where k = "(- 3)" and m = 7205759403792794])
          apply (simp_all add: pow2_def)
    apply (rule round_half_even_eval)
     apply simp_all
    done
  then show ?thesis
    by (simp add: truediv_def)
qed

lemma ex_xd: "fmul (Finite 500) (Finite 2500) = Finite 1250000"
proof -
  have "fl (500 * 2500) = Finite 1250000"
    apply (rule fl_eval[where k = "20" and m = 5368709120000000])
          apply (simp_all add: pow2_def)
    apply (rule round_half_even_eval)
     apply simp_all
    done
  then show ?thesis
    by (simp only: fmul_def prod.case pyfloat.case)
qed

lemma ex_xdi: "py_int (Finite 1250000) = Inr 1250000"
proof -
  have "\<lfloor>1250000 :: rat\<rfloor> = 1250000"
    by (rule floor_unique) simp_all
  then show ?thesis
    by (simp add: py_int_def)
qed

lemma ex_yd: "fmul (Finite 500) (Finite 6250) = Finite 3125000"
proof -
  have "fl (500 * 6250) = Finite 3125000"
    apply (rule fl_eval[where k = "21" and m = 6710886400000000])
          apply (simp_all add: pow2_def)
    apply (rule round_half_even_eval)
     apply simp_all
    done
  then show ?thesis
    by (simp only: fmul_def prod.case pyfloat.case)
qed

lemma ex_ydi: "py_int (Finite 3125000) = Inr 3125000"
proof -
  have "\<lfloor>3125000 :: rat\<rfloor> = 3125000"
    by (rule floor_unique) simp_all
  then show ?thesis
    by (simp add: py_int_def)
qed

lemma ex_fh: "fmul (Finite (4719807593856369 / 17592186044416)) (Finite (6004799503160661 / 9007199254740992)) = Finite (1573269197952123 / 8796093022208)"
proof -
  have "fl ((4719807593856369 / 17592186044416) * (6004799503160661 / 9007199254740992)) = Finite (1573269197952123 / 8796093022208)"
    apply (rule fl_eval[where k = "7" and m = 6293076791808492])
          apply (simp_all add: pow2_def)
    apply (rule round_half_even_eval)
     apply simp_all
    done
  then show ?thesis
    by (simp only: fmul_def prod.case pyfloat.case)
qed

lemma ex_om: "fsub (Finite 1) (Finite (3602879701896397 / 18014398509481984)) = Finite (3602879701896397 / 4503599627370496)"
proof -
  have "fl (1 - (3602879701896397 / 18014398509481984)) = Finite (3602879701896397 / 4503599627370496)"
    apply (rule fl_eval[where k = "(- 1)" and m = 7205759403792794])
          apply (simp_all add: pow2_def)
    apply (rule round_half_even_tie_eval[where n = 7205759403792793])
     apply simp_all
    done
  then show ?thesis
    by (simp only: fsub_def prod.case pyfloat.case)
qed

lemma ex_xs: "fmul (Finite (4719807593856369 / 17592186044416)) (Finite (3602879701896397 / 4503599627370496)) = Finite (7551692150170191 / 35184372088832)"
proof -
  have "fl ((4719807593856369 / 17592186044416) * (3602879701896397 / 4503599627370496)) = Finite (7551692150170191 / 35184372088832)"
    apply (rule fl_eval[where k = "7" and m = 7551692150170191])
          apply (simp_all add: pow2_def)
    apply (rule round_half_even_eval)
     apply simp_all
    done
  then show ?thesis
    by (simp only: fmul_def prod.case pyfloat.case)
qed

lemma ex_ys: "fmul (Finite (1573269197952123 / 8796093022208)) (Finite (3602879701896397 / 4503599627370496)) = Finite (2517230716723397 / 17592186044416)"
proof -
  have "fl ((1573269197952123 / 8796093022208) * (3602879701896397 / 4503599627370496)) = Finite (2517230716723397 / 17592186044416)"
    apply (rule fl_eval[where k = "7" and m = 5034461433446794])
          apply (simp_all add: pow2_def)
    apply (rule round_half_even_eval)
     apply simp_all
    done
  then show ?thesis
    by (simp only: fmul_def prod.case pyfloat.case)
qed

lemma ex_qx: "truediv (Finite 500) (Finite (7551692150170191 / 35184372088832)) = Inr (Finite (1311430619435387 / 562949953421312))"
proof -
  have "fl (500 / (7551692150170191 / 35184372088832)) = Finite (1311430619435387 / 562949953421312)"
    apply (rule fl_eval[where k = "1" and m = 5245722477741548])
          apply (simp_all add: pow2_def)
    apply (rule round_half_even_eval)
     apply simp_all
    done
  then show ?thesis
    by (simp add: truediv_def)
qed

lemma ex_cx: "math_ceil (Finite (1311430619435387 / 562949953421312)) = Inr 3"
proof -
  have "\<lceil>(1311430619435387 / 562949953421312) :: rat\<rceil> = 3"
    by (rule ceiling_unique) simp_all
  then show ?thesis
    by (simp add: math_ceil_def)
qed

lemma ex_qy: "truediv (Finite 500) (Finite (2517230716723397 / 17592186044416)) = Inr (Finite (7868583716612321 / 2251799813685248))"
proof -
  have "fl (500 / (2517230716723397 / 17592186044416)) = Finite (7868583716612321 / 2251799813685248)"
    apply (rule fl_eval[where k = "1" and m = 7868583716612321])
          apply (simp_all add: pow2_def)
    apply (rule round_half_even_eval)
     apply simp_all
    done
  then show ?thesis
    by (simp add: truediv_def)
qed

lemma ex_cy: "math_ceil (Finite (7868583716612321 / 2251799813685248)) = Inr 4"
proof -
  have "\<lceil>(7868583716612321 / 2251799813685248) :: rat\<rceil> = 4"
    by (rule ceiling_unique) simp_all
  then show ?thesis
    by (simp add: math_ceil_def)
qed

lemma ex_xi: "fmul (Finite (7551692150170191 / 35184372088832)) (Finite 2500) = Finite (4609187103375361 / 8589934592)"
proof -
  have "fl ((7551692150170191 / 35184372088832) * 2500) = Finite (4609187103375361 / 8589934592)"
    apply (rule fl_eval[where k = "19" and m = 4609187103375361])
          apply (simp_all add: pow2_def)
    apply (rule round_half_even_eval)
     apply simp_all
    done
  then show ?thesis
    by (simp only: fmul_def prod.case pyfloat.case)
qed

lemma ex_xii: "py_int (Finite (4609187103375361 / 8589934592)) = Inr 536580"
proof -
  have "\<lfloor>(4609187103375361 / 8589934592) :: rat\<rfloor> = 536580"
    by (rule floor_unique) simp_all
  then show ?thesis
    by (simp add: py_int_def)
qed

lemma ex_yi: "fmul (Finite (2517230716723397 / 17592186044416)) (Finite 6250) = Finite (7681978505625601 / 8589934592)"
proof -
  have "fl ((2517230716723397 / 17592186044416) * 6250) = Finite (7681978505625601 / 8589934592)"
    apply (rule fl_eval[where k = "19" and m = 7681978505625601])
          apply (simp_all add: pow2_def)
    apply (rule round_half_even_eval)
     apply simp_all
    done
  then show ?thesis
    by (simp only: fmul_def prod.case pyfloat.case)
qed

lemma ex_yii: "py_int (Finite (7681978505625601 / 8589934592)) = Inr 894300"
proof -
  have "\<lfloor>(7681978505625601 / 8589934592) :: rat\<rfloor> = 894300"
    by (rule floor_unique) simp_all
  then show ?thesis
    by (simp add: py_int_def)
qed

lemma example_plan:
  "calculate_grid_body (Some (py_float 20)) (Some (py_float 500)) (Some (py_float 500))
       (Some (py_float (26829 / 100))) s =
     Inr (s\<lparr>overlap := Finite (3602879701896397 / 18014398509481984), fov_width_mm := Finite (4719807593856369 / 17592186044416),
            x_dimension := 1250000, y_dimension := 3125000,
            x_inc := Some 536580, y_inc := Some 894300, x_steps := Some 4, y_steps := Some 5,
            status_var := ''Grid calculation complete''\<rparr>)"
  by (simp add: calculate_grid_body_def
        k_f100 k_f1 k_xscale k_yscale k_aspect ex_percent
        ex_ax ex_w ex_ov ex_xd ex_xdi ex_yd
        ex_ydi ex_fh ex_om ex_xs ex_ys ex_qx
        ex_cx ex_qy ex_cy ex_xi ex_xii ex_yi
        ex_yii)

text \<open>Overlap 150, area 512 by 512, field of view 256.\<close>

lemma wide_percent: "py_float 150 = Finite 150"
  unfolding py_float_def
  apply (rule fl_eval[where k = "7" and m = 5277655813324800])
        apply (simp_all add: pow2_def)
  apply (rule round_half_even_eval)
   apply simp_all
  done

lemma wide_ax: "py_float 512 = Finite 512"
  unfolding py_float_def
  apply (rule fl_eval[where k = "9" and m = 4503599627370496])
        apply (simp_all add: pow2_def)
  apply (rule round_half_even_eval)
   apply simp_all
  done

lemma wide_w: "py_float 256 = Finite 256"
  unfolding py_float_def
  apply (rule fl_eval[where k = "8" and m = 4503599627370496])
        apply (simp_all add: pow2_def)
  apply (rule round_half_even_eval)
   apply simp_all
  done

lemma wide_ov: "truediv (Finite 150) (Finite 100) = Inr (Finite (3 / 2))"
proof -
  have "fl (150 / 100) = Finite (3 / 2)"
    apply (rule fl_eval[where k = "0" and m = 6755399441055744])
          apply (simp_all add: pow2_def)
    apply (rule round_half_even_eval)
     apply simp_all
    done
  then show ?thesis
    by (simp add: truediv_def)
qed

lemma wide_xd: "fmul (Finite 512) (Finite 2500) = Finite 1280000"
proof -
  have "fl (512 * 2500) = Finite 1280000"
    apply (rule fl_eval[where k = "20" and m = 5497558138880000])
          apply (simp_all add: pow2_def)
    apply (rule round_half_even_eval)
     apply simp_all
    done
  then show ?thesis
    by (simp only: fmul_def prod.case pyfloat.case)
qed

lemma wide_xdi: "py_int (Finite 1280000) = Inr 1280000"
proof -
  have "\<lfloor>1280000 :: rat\<rfloor> = 1280000"
    by (rule floor_unique) simp_all
  then show ?thesis
    by (simp add: py_int_def)
qed

lemma wide_yd: "fmul (Finite 512) (Finite 6250) = Finite 3200000"
proof -
  have "fl (512 * 6250) = Finite 3200000"
    apply (rule fl_eval[where k = "21" and m = 6871947673600000])
          apply (simp_all add: pow2_def)
    apply (rule round_half_even_eval)
     apply simp_all
    done
  then show ?thesis
    by (simp only: fmul_def prod.case pyfloat.case)
qed

lemma wide_ydi: "py_int (Finite 3200000) = Inr 3200000"
proof -
  have "\<lfloor>3200000 :: rat\<rfloor> = 3200000"
    by (rule floor_unique) simp_all
  then show ?thesis
    by (simp add: py_int_def)
qed

lemma wide_fh: "fmul (Finite 256) (Finite (6004799503160661 / 9007199254740992)) = Finite (6004799503160661 / 35184372088832)"
proof -
  have "fl (256 * (6004799503160661 / 9007199254740992)) = Finite (6004799503160661 / 35184372088832)"
    apply (rule fl_eval[where k = "7" and m = 6004799503160661])
          apply (simp_all add: pow2_def)
    apply (rule round_half_even_eval)
     apply simp_all
    done
  then show ?thesis
    by (simp only: fmul_def prod.case pyfloat.case)
qed

lemma wide_om: "fsub (Finite 1) (Finite (3 / 2)) = Finite (- (1 / 2))"
proof -
  have "fl (1 - (3 / 2)) = Finite (- (1 / 2))"
    apply (rule fl_neg_eval[where r = "(1 / 2)"])
      apply simp
     prefer 2 apply simp
    apply (rule fl_eval[where k = "(- 1)" and m = 4503599627370496])
          apply (simp_all add: pow2_def)
    apply (rule round_half_even_eval)
     apply simp_all
    done
  then show ?thesis
    by (simp only: fsub_def prod.case pyfloat.case)
qed

lemma wide_xs: "fmul (Finite 256) (Finite (- (1 / 2))) = Finite (- 128)"
proof -
  have "fl (256 * (- (1 / 2))) = Finite (- 128)"
    apply (rule fl_neg_eval[where r = "128"])
      apply simp
     prefer 2 apply simp
    apply (rule fl_eval[where k = "7" and m = 4503599627370496])
          apply (simp_all add: pow2_def)
    apply (rule round_half_even_eval)
     apply simp_all
    done
  then show ?thesis
    by (simp only: fmul_def prod.case pyfloat.case)
qed

lemma wide_ys: "fmul (Finite (6004799503160661 / 35184372088832)) (Finite (- (1 / 2))) = Finite (- (6004799503160661 / 70368744177664))"
proof -
  have "fl ((6004799503160661 / 35184372088832) * (- (1 / 2))) = Finite (- (6004799503160661 / 70368744177664))"
    apply (rule fl_neg_eval[where r = "(6004799503160661 / 70368744177664)"])
      apply simp
     prefer 2 apply simp
    apply (rule fl_eval[where k = "6" and m = 6004799503160661])
          apply (simp_all add: pow2_def)
    apply (rule round_half_even_eval)
     apply simp_all
    done
  then show ?thesis
    by (simp only: fmul_def prod.case pyfloat.case)
qed

lemma wide_qx: "truediv (Finite 512) (Finite (- 128)) = Inr (Finite (- 4))"
proof -
  have "fl (512 / (- 128)) = Finite (- 4)"
    apply (rule fl_neg_eval[where r = "4"])
      apply simp
     prefer 2 apply simp
    apply (rule fl_eval[where k = "2" and m = 4503599627370496])
          apply (simp_all add: pow2_def)
    apply (rule round_half_even_eval)
     apply simp_all
    done
  then show ?thesis
    by (simp add: truediv_def)
qed

lemma wide_cx: "math_ceil (Finite (- 4)) = Inr (- 4)"
proof -
  have "\<lceil>(- 4) :: rat\<rceil> = (- 4)"
    by (rule ceiling_unique) simp_all
  then show ?thesis
    by (simp add: math_ceil_def)
qed

lemma wide_qy: "truediv (Finite 512) (Finite (- (6004799503160661 / 70368744177664))) = Inr (Finite (- 6))"
proof -
  have "fl (512 / (- (6004799503160661 / 70368744177664))) = Finite (- 6)"
    apply (rule fl_neg_eval[where r = "6"])
      apply simp
     prefer 2 apply simp
    apply (rule fl_eval[where k = "2" and m = 6755399441055744])
          apply (simp_all add: pow2_def)
    apply (rule round_half_even_eval)
     apply simp_all
    done
  then show ?thesis
    by (simp add: truediv_def)
qed

lemma wide_cy: "math_ceil (Finite (- 6)) = Inr (- 6)"
proof -
  have "\<lceil>(- 6) :: rat\<rceil> = (- 6)"
    by (rule ceiling_unique) simp_all
  then show ?thesis
    by (simp add: math_ceil_def)
qed

lemma wide_xi: "fmul (Finite (- 128)) (Finite 2500) = Finite (- 320000)"
proof -
  have "fl ((- 128) * 2500) = Finite (- 320000)"
    apply (rule fl_neg_eval[where r = "320000"])
      apply simp
     prefer 2 apply simp
    apply (rule fl_eval[where k = "18" and m = 5497558138880000])
          apply (simp_all add: pow2_def)
    apply (rule round_half_even_eval)
     apply simp_all
    done
  then show ?thesis
    by (simp only: fmul_def prod.case pyfloat.case)
qed

lemma wide_xii: "py_int (Finite (- 320000)) = Inr (- 320000)"
proof -
  have "\<lceil>(- 320000) :: rat\<rceil> = (- 320000)"
    by (rule ceiling_unique) simp_all
  then show ?thesis
    by (simp add: py_int_def)
qed

lemma wide_yi: "fmul (Finite (- (6004799503160661 / 70368744177664))) (Finite 6250) = Finite (- (2290649224533333 / 4294967296))"
proof -
  have "fl ((- (6004799503160661 / 70368744177664)) * 6250) = Finite (- (2290649224533333 / 4294967296))"
    apply (rule fl_neg_eval[where r = "(2290649224533333 / 4294967296)"])
      apply simp
     prefer 2 apply simp
    apply (rule fl_eval[where k = "19" and m = 4581298449066666])
          apply (simp_all add: pow2_def)
    apply (rule round_half_even_eval)
     apply simp_all
    done
  then show ?thesis
    by (simp only: fmul_def prod.case pyfloat.case)
qed

lemma wide_yii: "py_int (Finite (- (2290649224533333 / 4294967296))) = Inr (- 533333)"
proof -
  have "\<lceil>(- (2290649224533333 / 4294967296)) :: rat\<rceil> = (- 533333)"
    by (rule ceiling_unique) simp_all
  then show ?thesis
    by (simp add: py_int_def)
qed

lemma wide_overlap_plan:
  "calculate_grid_body (Some (py_float 150)) (Some (py_float 512)) (Some (py_float 512))
       (Some (py_float 256)) s =
     Inr (s\<lparr>overlap := Finite (3 / 2), fov_width_mm := Finite 256,
            x_dimension := 1280000, y_dimension := 3200000,
            x_inc := Some (- 320000), y_inc := Some (- 533333), x_steps := Some (- 3), y_steps := Some (- 5),
            status_var := ''Grid calculation complete''\<rparr>)"
  by (simp add: calculate_grid_body_def
        k_f100 k_f1 k_xscale k_yscale k_aspect wide_percent
        wide_ax wide_w wide_ov wide_xd wide_xdi wide_yd
        wide_ydi wide_fh wide_om wide_xs wide_ys wide_qx
        wide_cx wide_qy wide_cy wide_xi wide_xii wide_yi
        wide_yii)

text \<open>Overlap 20, area 500 by 500, field of view 0.\<close>

lemma nofov_percent: "py_float 20 = Finite 20"
  unfolding py_float_def
  apply (rule fl_eval[where k = "4" and m = 5629499534213120])
        apply (simp_all add: pow2_def)
  apply (rule round_half_even_eval)
   apply simp_all
  done

lemma nofov_ax: "py_float 500 = Finite 500"
  unfolding py_float_def
  apply (rule fl_eval[where k = "8" and m = 8796093022208000])
        apply (simp_all add: pow2_def)
  apply (rule round_half_even_eval)
   apply simp_all
  done

lemma nofov_w: "py_float 0 = Finite 0"
  unfolding py_float_def
  apply (simp add: fl_def)
  done

lemma nofov_ov: "truediv (Finite 20) (Finite 100) = Inr (Finite (3602879701896397 / 18014398509481984))"
proof -
  have "fl (20 / 100) = Finite (3602879701896397 / 18014398509481984)"
    apply (rule fl_eval[where k = "(- 3)" and m = 7205759403792794])
          apply (simp_all add: pow2_def)
    apply (rule round_half_even_eval)
     apply simp_all
    done
  then show ?thesis
    by (simp add: truediv_def)
qed

lemma nofov_xd: "fmul (Finite 500) (Finite 2500) = Finite 1250000"
proof -
  have "fl (500 * 2500) = Finite 1250000"
    apply (rule fl_eval[where k = "20" and m = 5368709120000000])
          apply (simp_all add: pow2_def)
    apply (rule round_half_even_eval)
     apply simp_all
    done
  then show ?thesis
    by (simp only: fmul_def prod.case pyfloat.case)
qed

lemma nofov_xdi: "py_int (Finite 1250000) = Inr 1250000"
proof -
  have "\<lfloor>1250000 :: rat\<rfloor> = 1250000"
    by (rule floor_unique) simp_all
  then show ?thesis
    by (simp add: py_int_def)
qed

lemma nofov_yd: "fmul (Finite 500) (Finite 6250) = Finite 3125000"
proof -
  have "fl (500 * 6250) = Finite 3125000"
    apply (rule fl_eval[where k = "21" and m = 6710886400000000])
          apply (simp_all add: pow2_def)
    apply (rule round_half_even_eval)
     apply simp_all
    done
  then show ?thesis
    by (simp only: fmul_def prod.case pyfloat.case)
qed

lemma nofov_ydi: "py_int (Finite 3125000) = Inr 3125000"
proof -
  have "\<lfloor>3125000 :: rat\<rfloor> = 3125000"
    by (rule floor_unique) simp_all
  then show ?thesis
    by (simp add: py_int_def)
qed

lemma nofov_fh: "fmul (Finite 0) (Finite (6004799503160661 / 9007199254740992)) = Finite 0"
proof -
  have "fl (0 * (6004799503160661 / 9007199254740992)) = Finite 0"
    apply (simp add: fl_def)
    done
  then show ?thesis
    by (simp only: fmul_def prod.case pyfloat.case)
qed

lemma nofov_om: "fsub (Finite 1) (Finite (3602879701896397 / 18014398509481984)) = Finite (3602879701896397 / 4503599627370496)"
proof -
  have "fl (1 - (3602879701896397 / 18014398509481984)) = Finite (3602879701896397 / 4503599627370496)"
    apply (rule fl_eval[where k = "(- 1)" and m = 7205759403792794])
          apply (simp_all add: pow2_def)
    apply (rule round_half_even_tie_eval[where n = 7205759403792793])
     apply simp_all
    done
  then show ?thesis
    by (simp only: fsub_def prod.case pyfloat.case)
qed

lemma nofov_xs: "fmul (Finite 0) (Finite (3602879701896397 / 4503599627370496)) = Finite 0"
proof -
  have "fl (0 * (3602879701896397 / 4503599627370496)) = Finite 0"
    apply (simp add: fl_def)
    done
  then show ?thesis
    by (simp only: fmul_def prod.case pyfloat.case)
qed

lemma nofov_ys: "fmul (Finite 0) (Finite (3602879701896397 / 4503599627370496)) = Finite 0"
proof -
  have "fl (0 * (3602879701896397 / 4503599627370496)) = Finite 0"
    apply (simp add: fl_def)
    done
  then show ?thesis
    by (simp only: fmul_def prod.case pyfloat.case)
qed

lemma nofov_zd: "truediv (Finite 500) (Finite 0) = Inl ZeroDivisionError"
  by (simp add: truediv_def)

lemma zero_fov_plan:
  "calculate_grid_body (Some (py_float 20)) (Some (py_float 500)) (Some (py_float 500))
       (Some (py_float 0)) s =
     Inl (ZeroDivisionError,
          s\<lparr>overlap := Finite (3602879701896397 / 18014398509481984), fov_width_mm := Finite 0,
            x_dimension := 1250000, y_dimension := 3125000\<rparr>)"
  by (simp add: calculate_grid_body_def
        k_f100 k_f1 k_xscale k_yscale k_aspect nofov_percent
        nofov_ax nofov_w nofov_ov nofov_xd nofov_xdi nofov_yd
        nofov_ydi nofov_fh nofov_om nofov_xs nofov_ys nofov_zd)

text \<open>Overlap 100, area 500 by 500, field of view 268.29.\<close>

lemma full_percent: "py_float 100 = Finite 100"
  unfolding py_float_def
  apply (rule fl_eval[where k = "6" and m = 7036874417766400])
        apply (simp_all add: pow2_def)
  apply (rule round_half_even_eval)
   apply simp_all
  done

lemma full_ax: "py_float 500 = Finite 500"
  unfolding py_float_def
  apply (rule fl_eval[where k = "8" and m = 8796093022208000])
        apply (simp_all add: pow2_def)
  apply (rule round_half_even_eval)
   apply simp_all
  done

lemma full_w: "py_float (26829 / 100) = Finite (4719807593856369 / 17592186044416)"
  unfolding py_float_def
  apply (rule fl_eval[where k = "8" and m = 4719807593856369])
        apply (simp_all add: pow2_def)
  apply (rule round_half_even_eval)
   apply simp_all
  done

lemma full_ov: "truediv (Finite 100) (Finite 100) = Inr (Finite 1)"
proof -
  have "fl (100 / 100) = Finite 1"
    apply (rule fl_eval[where k = "0" and m = 4503599627370496])
          apply (simp_all add: pow2_def)
    apply (rule round_half_even_eval)
     apply simp_all
    done
  then show ?thesis
    by (simp add: truediv_def)
qed

lemma full_xd: "fmul (Finite 500) (Finite 2500) = Finite 1250000"
proof -
  have "fl (500 * 2500) = Finite 1250000"
    apply (rule fl_eval[where k = "20" and m = 5368709120000000])
          apply (simp_all add: pow2_def)
    apply (rule round_half_even_eval)
     apply simp_all
    done
  then show ?thesis
    by (simp only: fmul_def prod.case pyfloat.case)
qed

lemma full_xdi: "py_int (Finite 1250000) = Inr 1250000"
proof -
  have "\<lfloor>1250000 :: rat\<rfloor> = 1250000"
    by (rule floor_unique) simp_all
  then show ?thesis
    by (simp add: py_int_def)
qed

lemma full_yd: "fmul (Finite 500) (Finite 6250) = Finite 3125000"
proof -
  have "fl (500 * 6250) = Finite 3125000"
    apply (rule fl_eval[where k = "21" and m = 6710886400000000])
          apply (simp_all add: pow2_def)
    apply (rule round_half_even_eval)
     apply simp_all
    done
  then show ?thesis
    by (simp only: fmul_def prod.case pyfloat.case)
qed

lemma full_ydi: "py_int (Finite 3125000) = Inr 3125000"
proof -
  have "\<lfloor>3125000 :: rat\<rfloor> = 3125000"
    by (rule floor_unique) simp_all
  then show ?thesis
    by (simp add: py_int_def)
qed

lemma full_fh: "fmul (Finite (4719807593856369 / 17592186044416)) (Finite (6004799503160661 / 9007199254740992)) = Finite (1573269197952123 / 8796093022208)"
proof -
  have "fl ((4719807593856369 / 17592186044416) * (6004799503160661 / 9007199254740992)) = Finite (1573269197952123 / 8796093022208)"
    apply (rule fl_eval[where k = "7" and m = 6293076791808492])
          apply (simp_all add: pow2_def)
    apply (rule round_half_even_eval)
     apply simp_all
    done
  then show ?thesis
    by (simp only: fmul_def prod.case pyfloat.case)
qed

lemma full_om: "fsub (Finite 1) (Finite 1) = Finite 0"
proof -
  have "fl (1 - 1) = Finite 0"
    apply (simp add: fl_def)
    done
  then show ?thesis
    by (simp only: fsub_def prod.case pyfloat.case)
qed

lemma full_xs: "fmul (Finite (4719807593856369 / 17592186044416)) (Finite 0) = Finite 0"
proof -
  have "fl ((4719807593856369 / 17592186044416) * 0) = Finite 0"
    apply (simp add: fl_def)
    done
  then show ?thesis
    by (simp only: fmul_def prod.case pyfloat.case)
qed

lemma full_ys: "fmul (Finite (1573269197952123 / 8796093022208)) (Finite 0) = Finite 0"
proof -
  have "fl ((1573269197952123 / 8796093022208) * 0) = Finite 0"
    apply (simp add: fl_def)
    done
  then show ?thesis
    by (simp only: fmul_def prod.case pyfloat.case)
qed

lemma full_zd: "truediv (Finite 500) (Finite 0) = Inl ZeroDivisionError"
  by (simp add: truediv_def)

lemma full_overlap_plan:
  "calculate_grid_body (Some (py_float 100)) (Some (py_float 500)) (Some (py_float 500))
       (Some (py_float (26829 / 100))) s =
     Inl (ZeroDivisionError,
          s\<lparr>overlap := Finite 1, fov_width_mm := Finite (4719807593856369 / 17592186044416),
            x_dimension := 1250000, y_dimension := 3125000\<rparr>)"
  by (simp add: calculate_grid_body_def
        k_f100 k_f1 k_xscale k_yscale k_aspect full_percent
        full_ax full_w full_ov full_xd full_xdi full_yd
        full_ydi full_fh full_om full_xs full_ys full_zd)

text \<open>Overlap 30, area 63 by 21, field of view 3.\<close>

lemma tie_percent: "py_float 30 = Finite 30"
  unfolding py_float_def
  apply (rule fl_eval[where k = "4" and m = 8444249301319680])
        apply (simp_all add: pow2_def)
  apply (rule round_half_even_eval)
   apply simp_all
  done

lemma tie_ax: "py_float 63 = Finite 63"
  unfolding py_float_def
  apply (rule fl_eval[where k = "5" and m = 8866461766385664])
        apply (simp_all add: pow2_def)
  apply (rule round_half_even_eval)
   apply simp_all
  done

lemma tie_ay: "py_float 21 = Finite 21"
  unfolding py_float_def
  apply (rule fl_eval[where k = "4" and m = 5910974510923776])
        apply (simp_all add: pow2_def)
  apply (rule round_half_even_eval)
   apply simp_all
  done

lemma tie_w: "py_float 3 = Finite 3"
  unfolding py_float_def
  apply (rule fl_eval[where k = "1" and m = 6755399441055744])
        apply (simp_all add: pow2_def)
  apply (rule round_half_even_eval)
   apply simp_all
  done

lemma tie_ov: "truediv (Finite 30) (Finite 100) = Inr (Finite (5404319552844595 / 18014398509481984))"
proof -
  have "fl (30 / 100) = Finite (5404319552844595 / 18014398509481984)"
    apply (rule fl_eval[where k = "(- 2)" and m = 5404319552844595])
          apply (simp_all add: pow2_def)
    apply (rule round_half_even_eval)
     apply simp_all
    done
  then show ?thesis
    by (simp add: truediv_def)
qed

lemma tie_xd: "fmul (Finite 63) (Finite 2500) = Finite 157500"
proof -
  have "fl (63 * 2500) = Finite 157500"
    apply (rule fl_eval[where k = "17" and m = 5411658792960000])
          apply (simp_all add: pow2_def)
    apply (rule round_half_even_eval)
     apply simp_all
    done
  then show ?thesis
    by (simp only: fmul_def prod.case pyfloat.case)
qed

lemma tie_xdi: "py_int (Finite 157500) = Inr 157500"
proof -
  have "\<lfloor>157500 :: rat\<rfloor> = 157500"
    by (rule floor_unique) simp_all
  then show ?thesis
    by (simp add: py_int_def)
qed

lemma tie_yd: "fmul (Finite 21) (Finite 6250) = Finite 131250"
proof -
  have "fl (21 * 6250) = Finite 131250"
    apply (rule fl_eval[where k = "17" and m = 4509715660800000])
          apply (simp_all add: pow2_def)
    apply (rule round_half_even_eval)
     apply simp_all
    done
  then show ?thesis
    by (simp only: fmul_def prod.case pyfloat.case)
qed

lemma tie_ydi: "py_int (Finite 131250) = Inr 131250"
proof -
  have "\<lfloor>131250 :: rat\<rfloor> = 131250"
    by (rule floor_unique) simp_all
  then show ?thesis
    by (simp add: py_int_def)
qed

lemma tie_fh: "fmul (Finite 3) (Finite (6004799503160661 / 9007199254740992)) = Finite 2"
proof -
  have "fl (3 * (6004799503160661 / 9007199254740992)) = Finite 2"
    apply (rule fl_eval[where k = "0" and m = 9007199254740992])
          apply (simp_all add: pow2_def)
    apply (rule round_half_even_tie_eval[where n = 9007199254740991])
     apply simp_all
    done
  then show ?thesis
    by (simp only: fmul_def prod.case pyfloat.case)
qed

lemma tie_om: "fsub (Finite 1) (Finite (5404319552844595 / 18014398509481984)) = Finite (3152519739159347 / 4503599627370496)"
proof -
  have "fl (1 - (5404319552844595 / 18014398509481984)) = Finite (3152519739159347 / 4503599627370496)"
    apply (rule fl_eval[where k = "(- 1)" and m = 6305039478318694])
          apply (simp_all add: pow2_def)
    apply (rule round_half_even_tie_eval[where n = 6305039478318694])
     apply simp_all
    done
  then show ?thesis
    by (simp only: fsub_def prod.case pyfloat.case)
qed

lemma tie_xs: "fmul (Finite 3) (Finite (3152519739159347 / 4503599627370496)) = Finite (1182194902184755 / 562949953421312)"
proof -
  have "fl (3 * (3152519739159347 / 4503599627370496)) = Finite (1182194902184755 / 562949953421312)"
    apply (rule fl_eval[where k = "1" and m = 4728779608739020])
          apply (simp_all add: pow2_def)
    apply (rule round_half_even_tie_eval[where n = 4728779608739020])
     apply simp_all
    done
  then show ?thesis
    by (simp only: fmul_def prod.case pyfloat.case)
qed

lemma tie_ys: "fmul (Finite 2) (Finite (3152519739159347 / 4503599627370496)) = Finite (3152519739159347 / 2251799813685248)"
proof -
  have "fl (2 * (3152519739159347 / 4503599627370496)) = Finite (3152519739159347 / 2251799813685248)"
    apply (rule fl_eval[where k = "0" and m = 6305039478318694])
          apply (simp_all add: pow2_def)
    apply (rule round_half_even_eval)
     apply simp_all
    done
  then show ?thesis
    by (simp only: fmul_def prod.case pyfloat.case)
qed

lemma tie_qx: "truediv (Finite 63) (Finite (1182194902184755 / 562949953421312)) = Inr (Finite (8444249301319681 / 281474976710656))"
proof -
  have "fl (63 / (1182194902184755 / 562949953421312)) = Finite (8444249301319681 / 281474976710656)"
    apply (rule fl_eval[where k = "4" and m = 8444249301319681])
          apply (simp_all add: pow2_def)
    apply (rule round_half_even_eval)
     apply simp_all
    done
  then show ?thesis
    by (simp add: truediv_def)
qed

lemma tie_cx: "math_ceil (Finite (8444249301319681 / 281474976710656)) = Inr 31"
proof -
  have "\<lceil>(8444249301319681 / 281474976710656) :: rat\<rceil> = 31"
    by (rule ceiling_unique) simp_all
  then show ?thesis
    by (simp add: math_ceil_def)
qed

lemma tie_qy: "truediv (Finite 21) (Finite (3152519739159347 / 2251799813685248)) = Inr (Finite (8444249301319681 / 562949953421312))"
proof -
  have "fl (21 / (3152519739159347 / 2251799813685248)) = Finite (8444249301319681 / 562949953421312)"
    apply (rule fl_eval[where k = "3" and m = 8444249301319681])
          apply (simp_all add: pow2_def)
    apply (rule round_half_even_eval)
     apply simp_all
    done
  then show ?thesis
    by (simp add: truediv_def)
qed

lemma tie_cy: "math_ceil (Finite (8444249301319681 / 562949953421312)) = Inr 16"
proof -
  have "\<lceil>(8444249301319681 / 562949953421312) :: rat\<rceil> = 16"
    by (rule ceiling_unique) simp_all
  then show ?thesis
    by (simp add: math_ceil_def)
qed

lemma tie_xi: "fmul (Finite (1182194902184755 / 562949953421312)) (Finite 2500) = Finite (5772436045823999 / 1099511627776)"
proof -
  have "fl ((1182194902184755 / 562949953421312) * 2500) = Finite (5772436045823999 / 1099511627776)"
    apply (rule fl_eval[where k = "12" and m = 5772436045823999])
          apply (simp_all add: pow2_def)
    apply (rule round_half_even_eval)
     apply simp_all
    done
  then show ?thesis
    by (simp only: fmul_def prod.case pyfloat.case)
qed

lemma tie_xii: "py_int (Finite (5772436045823999 / 1099511627776)) = Inr 5249"
proof -
  have "\<lfloor>(5772436045823999 / 1099511627776) :: rat\<rfloor> = 5249"
    by (rule floor_unique) simp_all
  then show ?thesis
    by (simp add: py_int_def)
qed

lemma tie_yi: "fmul (Finite (3152519739159347 / 2251799813685248)) (Finite 6250) = Finite 8750"
proof -
  have "fl ((3152519739159347 / 2251799813685248) * 6250) = Finite 8750"
    apply (rule fl_eval[where k = "13" and m = 4810363371520000])
          apply (simp_all add: pow2_def)
    apply (rule round_half_even_eval)
     apply simp_all
    done
  then show ?thesis
    by (simp only: fmul_def prod.case pyfloat.case)
qed

lemma tie_yii: "py_int (Finite 8750) = Inr 8750"
proof -
  have "\<lfloor>8750 :: rat\<rfloor> = 8750"
    by (rule floor_unique) simp_all
  then show ?thesis
    by (simp add: py_int_def)
qed

lemma rounded_up_plan:
  "calculate_grid_body (Some (py_float 30)) (Some (py_float 63)) (Some (py_float 21))
       (Some (py_float 3)) s =
     Inr (s\<lparr>overlap := Finite (5404319552844595 / 18014398509481984), fov_width_mm := Finite 3,
            x_dimension := 157500, y_dimension := 131250,
            x_inc := Some 5249, y_inc := Some 8750, x_steps := Some 32, y_steps := Some 17,
            status_var := ''Grid calculation complete''\<rparr>)"
  by (simp add: calculate_grid_body_def
        k_f100 k_f1 k_xscale k_yscale k_aspect tie_percent
        tie_ax tie_ay tie_w tie_ov tie_xd tie_xdi
        tie_yd tie_ydi tie_fh tie_om tie_xs tie_ys
        tie_qx tie_cx tie_qy tie_cy tie_xi tie_xii
        tie_yi tie_yii)

section \<open>Properties of the grid planner\<close>

lemma calculate_grid_body_Inr:
  assumes "calculate_grid_body (Some p) (Some ax) (Some ay) (Some w) s = Inr s'"
  shows "\<exists>ov aspect xd yd qx cx qy cy xi yi.
           truediv p (float_of_int 100) = Inr ov \<and>
           py_int (fmul ax (float_of_int x_scale)) = Inr xd \<and>
           py_int (fmul ay (float_of_int y_scale)) = Inr yd \<and>
           int_truediv camera_height_px camera_width_px = Inr aspect \<and>
           truediv ax (fmul w (fsub (float_of_int 1) ov)) = Inr qx \<and>
           math_ceil qx = Inr cx \<and>
           truediv ay (fmul (fmul w aspect) (fsub (float_of_int 1) ov)) = Inr qy \<and>
           math_ceil qy = Inr cy \<and>
           py_int (fmul (fmul w (fsub (float_of_int 1) ov)) (float_of_int x_scale)) = Inr xi \<and>
           py_int (fmul (fmul (fmul w aspect) (fsub (float_of_int 1) ov)) (float_of_int y_scale))
             = Inr yi \<and>
           s' = s\<lparr>overlap := ov, fov_width_mm := w, x_dimension := xd, y_dimension := yd,
                  x_inc := Some xi, y_inc := Some yi,
                  x_steps := Some (cx + 1), y_steps := Some (cy + 1),
                  status_var := ''Grid calculation complete''\<rparr>"
  using assms unfolding calculate_grid_body_def Let_def
  by (auto split: sum.splits)

lemma fl_finite:
  assumes "\<bar>q\<bar> \<le> pow2 hi" "- 1074 \<le> hi" "hi \<le> 1023"
  shows "\<exists>r. fl q = Finite r"
proof -
  have pos: "\<exists>r. fl x = Finite r" if "0 < x" "x \<le> pow2 hi" for x
  proof -
    define k where "k = ilog2 x"
    define e where "e = max (k - 52) (- 1074)"
    have "k \<le> hi"
    proof (rule ccontr)
      assume "\<not> k \<le> hi"
      then have "hi < k" by simp
      from pow2_strict_mono[OF this] ilog2_lower[OF that(1)] that(2) show False
        unfolding k_def by linarith
    qed
    then have "e \<le> hi" unfolding e_def using assms(2) by simp
    from rnd_upper[OF that(2) this]
    have "of_int (round_half_even (x / pow2 e)) * pow2 e \<le> pow2 hi" .
    moreover have "pow2 hi < pow2 1024" using assms(3) by (intro pow2_strict_mono) simp
    ultimately have "\<not> pow2 1024 \<le> of_int (round_half_even (x / pow2 e)) * pow2 e"
      by linarith
    then show ?thesis
      unfolding fl_pos_unfold[OF that(1)] Let_def e_def k_def by simp
  qed
  consider "q = 0" | "0 < q" | "q < 0" by linarith
  then show ?thesis
  proof cases
    case 1
    then show ?thesis by (simp add: fl_def)
  next
    case 2
    with assms(1) pos[of q] show ?thesis by simp
  next
    case 3
    with assms(1) pos[of "- q"] obtain r where "fl (- q) = Finite r" by auto
    from fl_neg[OF 3 this] show ?thesis by blast
  qed
qed

lemma fl_range:
  assumes "pow2 lo \<le> q" "q \<le> pow2 hi" "- 1074 \<le> lo" "hi \<le> 1023"
  shows "in_range lo hi (fl q)"
proof -
  have "0 < q" using assms(1) pow2_pos[of lo] by linarith
  from fl_bounds[OF this assms] show ?thesis by (auto simp: in_range_def)
qed

lemma in_rangeD:
  assumes "in_range lo hi x"
  obtains r where "x = Finite r" "pow2 lo \<le> r" "r \<le> pow2 hi" "0 < r"
proof -
  from assms obtain r where r: "x = Finite r" "pow2 lo \<le> r" "r \<le> pow2 hi"
    by (auto simp: in_range_def split: pyfloat.splits)
  moreover have "0 < r" using r(2) pow2_pos[of lo] by linarith
  ultimately show ?thesis using that by blast
qed

lemma in_range_weaken:
  "in_range lo hi x \<Longrightarrow> lo' \<le> lo \<Longrightarrow> hi \<le> hi' \<Longrightarrow> in_range lo' hi' x"
  using pow2_mono[of lo' lo] pow2_mono[of hi hi']
  by (auto simp: in_range_def split: pyfloat.splits)

lemma fmul_range:
  assumes "in_range a b x" "in_range c d y" "- 1074 \<le> a + c" "b + d \<le> 1023"
  shows "in_range (a + c) (b + d) (fmul x y)"
proof -
  from assms(1) obtain r where r: "x = Finite r" "pow2 a \<le> r" "r \<le> pow2 b" "0 < r"
    by (rule in_rangeD)
  from assms(2) obtain t where t: "y = Finite t" "pow2 c \<le> t" "t \<le> pow2 d" "0 < t"
    by (rule in_rangeD)
  have "pow2 a * pow2 c \<le> r * t"
    using r t pow2_pos[of a] pow2_pos[of c] by (intro mult_mono) simp_all
  then have lo: "pow2 (a + c) \<le> r * t" by (simp add: pow2_add)
  have "r * t \<le> pow2 b * pow2 d"
    using r t pow2_pos[of b] pow2_pos[of d] by (intro mult_mono) simp_all
  then have hi: "r * t \<le> pow2 (b + d)" by (simp add: pow2_add)
  from fl_range[OF lo hi assms(3,4)] show ?thesis by (simp add: fmul_def r t)
qed

lemma truediv_range:
  assumes "in_range a b x" "in_range c d y" "- 1074 \<le> a - d" "b - c \<le> 1023"
  shows "\<exists>q. truediv x y = Inr q \<and> in_range (a - d) (b - c) q"
proof -
  from assms(1) obtain r where r: "x = Finite r" "pow2 a \<le> r" "r \<le> pow2 b" "0 < r"
    by (rule in_rangeD)
  from assms(2) obtain t where t: "y = Finite t" "pow2 c \<le> t" "t \<le> pow2 d" "0 < t"
    by (rule in_rangeD)
  have "pow2 (a - d) * pow2 d = pow2 a" using pow2_add[of "a - d" d] by simp
  then have "pow2 (a - d) * t \<le> r"
    using r(2) t(3) pow2_pos[of "a - d"]
    by (metis mult_left_mono less_imp_le order_trans)
  then have lo: "pow2 (a - d) \<le> r / t" using t(4) by (simp add: field_simps)
  have "pow2 (b - c) * pow2 c = pow2 b" using pow2_add[of "b - c" c] by simp
  then have "r \<le> pow2 (b - c) * t"
    using r(3) t(2) pow2_pos[of "b - c"]
    by (metis mult_left_mono less_imp_le order_trans)
  then have hi: "r / t \<le> pow2 (b - c)" using t(4) by (simp add: field_simps)
  have "t \<noteq> 0" using t(4) by simp
  with fl_range[OF lo hi assms(3,4)] show ?thesis by (simp add: truediv_def r t)
qed

lemma py_int_range: "in_range a b x \<Longrightarrow> \<exists>n. py_int x = Inr n"
  by (auto simp: in_range_def py_int_def split: pyfloat.splits)

lemma math_ceil_range: "in_range a b x \<Longrightarrow> \<exists>n. math_ceil x = Inr n"
  by (auto simp: in_range_def math_ceil_def split: pyfloat.splits)

text \<open>Signs.\<close>

lemma nonneg_fl: "0 \<le> q \<Longrightarrow> nonneg_f (fl q)"
  using fl_nonneg[of q] by (auto simp: nonneg_f_def split: pyfloat.splits)

lemma fmul_nonneg:
  assumes "nonneg_f x" "nonneg_f y"
  shows "nonneg_f (fmul x y)"
proof (cases x)
  case (Finite a)
  then show ?thesis
  proof (cases y)
    case (Finite b)
    with \<open>x = Finite a\<close> assms have "0 \<le> a * b" by (simp add: nonneg_f_def)
    from nonneg_fl[OF this] show ?thesis using Finite \<open>x = Finite a\<close> by (simp add: fmul_def)
  qed (use assms Finite in \<open>auto simp: nonneg_f_def fmul_def inf_of_sign_def sgn_f_def sgn_if\<close>)
qed (use assms in \<open>auto simp: nonneg_f_def fmul_def inf_of_sign_def sgn_f_def sgn_if
       split: pyfloat.splits\<close>)

lemma truediv_nonneg:
  assumes "0 < a" "nonneg_f y" "truediv (Finite a) y = Inr q"
  shows "nonneg_f q"
proof (cases y)
  case (Finite b)
  with assms(3) have b: "b \<noteq> 0" and q: "q = fl (a / b)"
    by (auto simp: truediv_def split: if_splits)
  from assms(2) Finite b have "0 < b" by (simp add: nonneg_f_def)
  then have "0 \<le> a / b" using assms(1) by simp
  from nonneg_fl[OF this] show ?thesis by (simp add: q)
qed (use assms in \<open>auto simp: nonneg_f_def truediv_def\<close>)

lemma math_ceil_nonneg: "nonneg_f q \<Longrightarrow> math_ceil q = Inr c \<Longrightarrow> 0 \<le> c"
  by (auto simp: nonneg_f_def math_ceil_def split: pyfloat.splits)

lemma one_minus_nonneg: "o' < 1 \<Longrightarrow> nonneg_f (fsub (float_of_int 1) (Finite o'))"
  using nonneg_fl[of "1 - o'"] by (simp add: fsub_def k_f1)

lemma aspect_nonneg: "int_truediv camera_height_px camera_width_px = Inr a \<Longrightarrow> nonneg_f a"
  by (auto simp: k_aspect nonneg_f_def)

lemma counts_ge_1:
  assumes "calculate_grid_body (Some p) (Some (Finite ax)) (Some (Finite ay)) (Some (Finite w)) s
             = Inr s'"
    and "truediv p (float_of_int 100) = Inr (Finite o')"
    and "o' < 1" "0 < w" "0 < ax" "0 < ay"
  shows "\<exists>nx ny. x_steps s' = Some nx \<and> y_steps s' = Some ny \<and> 1 \<le> nx \<and> 1 \<le> ny"
proof -
  from calculate_grid_body_Inr[OF assms(1)] assms(2)
  obtain aspect qx cx qy cy where
    a: "int_truediv camera_height_px camera_width_px = Inr aspect" and
    qx: "truediv (Finite ax) (fmul (Finite w) (fsub (float_of_int 1) (Finite o'))) = Inr qx" and
    cx: "math_ceil qx = Inr cx" and
    qy: "truediv (Finite ay) (fmul (fmul (Finite w) aspect) (fsub (float_of_int 1) (Finite o')))
           = Inr qy" and
    cy: "math_ceil qy = Inr cy" and
    s': "x_steps s' = Some (cx + 1)" "y_steps s' = Some (cy + 1)"
    by auto
  have w: "nonneg_f (Finite w)" using assms(4) by (simp add: nonneg_f_def)
  have m: "nonneg_f (fsub (float_of_int 1) (Finite o'))" using assms(3) by (rule one_minus_nonneg)
  have "nonneg_f qx" using truediv_nonneg[OF assms(5) fmul_nonneg[OF w m] qx] .
  then have "0 \<le> cx" using cx by (rule math_ceil_nonneg)
  have "nonneg_f (fmul (Finite w) aspect)" using w aspect_nonneg[OF a] by (rule fmul_nonneg)
  then have "nonneg_f qy" using truediv_nonneg[OF assms(6) fmul_nonneg[OF _ m] qy] by simp
  then have "0 \<le> cy" using cy by (rule math_ceil_nonneg)
  show ?thesis using s' \<open>0 \<le> cx\<close> \<open>0 \<le> cy\<close> by simp
qed

lemma fl_neg_iff:
  assumes "q < 0" "fl q = Finite v"
  shows "fl (- q) = Finite (- v)"
  using assms by (auto simp: fl_def Let_def split: if_splits)

lemma fl_below_one:
  assumes "fl q = Finite v" "v < 1"
  shows "v \<le> 1 - pow2 (- 53)"
proof -
  have small: "pow2 (- 53) \<le> 1 / 2" by (simp add: pow2_def)
  consider "q = 0" | "q < 0" | "0 < q" by linarith
  then show ?thesis
  proof cases
    case 1
    with assms(1) have "v = 0" by (simp add: fl_def)
    with small show ?thesis by simp
  next
    case 2
    from fl_neg_iff[OF 2 assms(1)] nonneg_fl[of "- q"] 2 have "v \<le> 0"
      by (simp add: nonneg_f_def)
    with small show ?thesis by simp
  next
    case 3
    define k where "k = ilog2 q"
    define e where "e = max (k - 52) (- 1074)"
    define m where "m = round_half_even (q / pow2 e)"
    have v: "v = of_int m * pow2 e"
      using assms(1) unfolding fl_pos_unfold[OF 3] Let_def m_def e_def k_def
      by (simp split: if_splits)
    have lower: "pow2 k \<le> q" unfolding k_def using 3 by (rule ilog2_lower)
    have upper: "q < pow2 (k + 1)" unfolding k_def using 3 by (rule ilog2_upper)
    consider "0 \<le> k" | "k = - 1" | "k \<le> - 2" by linarith
    then show ?thesis
    proof cases
      case 1
      have "e \<le> k" unfolding e_def using 1 by simp
      from rnd_lower[OF lower this] have "pow2 k \<le> v" unfolding v m_def .
      moreover have "pow2 0 \<le> pow2 k" using 1 by (rule pow2_mono)
      ultimately have "1 \<le> v" by (simp add: pow2_def)
      with assms(2) show ?thesis by simp
    next
      case 2
      then have e: "e = - 53" unfolding e_def by simp
      have "of_int m * pow2 (- 53) < 1" using assms(2) v e by simp
      then have "(of_int m :: rat) < 2 ^ 53" by (simp add: pow2_def field_simps)
      then have "(of_int m :: rat) < of_int (2 ^ 53)" by simp
      then have "m < 2 ^ 53" by (simp only: of_int_less_iff)
      then have "m \<le> 2 ^ 53 - 1" by simp
      then have "(of_int m :: rat) \<le> of_int (2 ^ 53 - 1)" by (simp only: of_int_le_iff)
      then have "of_int m * pow2 (- 53) \<le> of_int (2 ^ 53 - 1) * pow2 (- 53)"
        using pow2_pos[of "- 53"] by (intro mult_right_mono) simp_all
      also have "\<dots> = 1 - pow2 (- 53)" by (simp add: pow2_def)
      finally show ?thesis using v e by simp
    next
      case 3
      define b where "b = max (k + 1) (- 1074)"
      have "pow2 (k + 1) \<le> pow2 b" unfolding b_def by (intro pow2_mono) simp
      with upper have qb: "q \<le> pow2 b" by linarith
      have "e \<le> b" unfolding e_def b_def by simp
      from rnd_upper[OF qb this] have "v \<le> pow2 b" unfolding v m_def .
      moreover have "pow2 b \<le> pow2 (- 1)" unfolding b_def using 3 by (intro pow2_mono) simp
      moreover have "pow2 (- 1) = 1 / 2" by (simp add: pow2_def)
      ultimately show ?thesis using small by linarith
    qed
  qed
qed

lemma x_scale_range: "in_range 11 12 (float_of_int x_scale)"
  by (simp add: k_xscale in_range_def pow2_def)

lemma y_scale_range: "in_range 12 13 (float_of_int y_scale)"
  by (simp add: k_yscale in_range_def pow2_def)

lemma aspect_range:
  "\<exists>a. int_truediv camera_height_px camera_width_px = Inr a \<and> in_range (- 1) 0 a"
  by (simp add: k_aspect in_range_def pow2_def)

lemma overlap_is_rounded:
  assumes "truediv p (float_of_int 100) = Inr (Finite v)"
  shows "\<exists>q. fl q = Finite v"
  using assms
  by (cases p) (auto simp: truediv_def k_f100 inf_of_sign_def sgn_f_def split: if_splits)

lemma one_minus_range:
  assumes "truediv p (float_of_int 100) = Inr (Finite v)" "- pow2 20 \<le> v" "v < 1"
  shows "in_range (- 53) 21 (fsub (float_of_int 1) (Finite v))"
proof -
  from overlap_is_rounded[OF assms(1)] obtain q where "fl q = Finite v" ..
  from fl_below_one[OF this assms(3)] have lo: "pow2 (- 53) \<le> 1 - v" by simp
  have "1 - v \<le> 1 + pow2 20" using assms(2) by simp
  also have "\<dots> \<le> pow2 21" by (simp add: pow2_def)
  finally have hi: "1 - v \<le> pow2 21" .
  from fl_range[OF lo hi] show ?thesis by (simp add: fsub_def k_f1)
qed

lemma planner_completes:
  assumes ov: "truediv p (float_of_int 100) = Inr (Finite v)" "- pow2 20 \<le> v" "v < 1"
    and w: "in_range (- 300) 300 (Finite w)"
    and ax: "in_range (- 300) 300 (Finite ax)"
    and ay: "in_range (- 300) 300 (Finite ay)"
  shows "\<exists>s'. calculate_grid_body (Some p) (Some (Finite ax)) (Some (Finite ay)) (Some (Finite w)) s
                 = Inr s'"
proof -
  let ?m = "fsub (float_of_int 1) (Finite v)"
  have m: "in_range (- 53) 21 ?m" using ov by (rule one_minus_range)
  obtain a where a: "int_truediv camera_height_px camera_width_px = Inr a"
    and ar: "in_range (- 1) 0 a" using aspect_range by blast
  have xs: "in_range (- 353) 321 (fmul (Finite w) ?m)"
    using fmul_range[OF w m] by simp
  have fh: "in_range (- 301) 300 (fmul (Finite w) a)"
    using fmul_range[OF w ar] by simp
  have ys: "in_range (- 354) 321 (fmul (fmul (Finite w) a) ?m)"
    using fmul_range[OF fh m] by simp
  have "in_range (- 289) 312 (fmul (Finite ax) (float_of_int x_scale))"
    using fmul_range[OF ax x_scale_range] by simp
  then obtain xd where xd: "py_int (fmul (Finite ax) (float_of_int x_scale)) = Inr xd"
    using py_int_range by blast
  have "in_range (- 288) 313 (fmul (Finite ay) (float_of_int y_scale))"
    using fmul_range[OF ay y_scale_range] by simp
  then obtain yd where yd: "py_int (fmul (Finite ay) (float_of_int y_scale)) = Inr yd"
    using py_int_range by blast
  obtain qx where qx: "truediv (Finite ax) (fmul (Finite w) ?m) = Inr qx"
    and qxr: "in_range (- 621) 653 qx"
    using truediv_range[OF ax xs] by auto
  obtain cx where cx: "math_ceil qx = Inr cx" using math_ceil_range[OF qxr] by blast
  obtain qy where qy: "truediv (Finite ay) (fmul (fmul (Finite w) a) ?m) = Inr qy"
    and qyr: "in_range (- 621) 654 qy"
    using truediv_range[OF ay ys] by auto
  obtain cy where cy: "math_ceil qy = Inr cy" using math_ceil_range[OF qyr] by blast
  have "in_range (- 342) 333 (fmul (fmul (Finite w) ?m) (float_of_int x_scale))"
    using fmul_range[OF xs x_scale_range] by simp
  then obtain xi where xi: "py_int (fmul (fmul (Finite w) ?m) (float_of_int x_scale)) = Inr xi"
    using py_int_range by blast
  have "in_range (- 342) 334 (fmul (fmul (fmul (Finite w) a) ?m) (float_of_int y_scale))"
    using fmul_range[OF ys y_scale_range] by simp
  then obtain yi where
    yi: "py_int (fmul (fmul (fmul (Finite w) a) ?m) (float_of_int y_scale)) = Inr yi"
    using py_int_range by blast
  show ?thesis
    unfolding calculate_grid_body_def Let_def
    by (simp add: ov(1) xd yd a qx cx qy cy xi yi)
qed

lemma planner_zero_division:
  assumes "truediv p (float_of_int 100) = Inr (Finite 1)"
    and "\<bar>ax\<bar> \<le> pow2 1000" "\<bar>ay\<bar> \<le> pow2 1000"
  shows "\<exists>s'. calculate_grid_body (Some p) (Some (Finite ax)) (Some (Finite ay)) (Some (Finite w)) s
                 = Inl (ZeroDivisionError, s')"
proof -
  have "\<bar>ax * 2500\<bar> \<le> pow2 1000 * pow2 12"
    unfolding abs_mult using assms(2) by (intro mult_mono) (simp_all add: pow2_def)
  then have "\<bar>ax * 2500\<bar> \<le> pow2 1012" using pow2_add[of 1000 12] by simp
  from fl_finite[OF this] obtain r where "fl (ax * 2500) = Finite r" by auto
  then obtain xd where xd: "py_int (fmul (Finite ax) (float_of_int x_scale)) = Inr xd"
    by (simp add: fmul_def k_xscale py_int_def)
  have "\<bar>ay * 6250\<bar> \<le> pow2 1000 * pow2 13"
    unfolding abs_mult using assms(3) by (intro mult_mono) (simp_all add: pow2_def)
  then have "\<bar>ay * 6250\<bar> \<le> pow2 1013" using pow2_add[of 1000 13] by simp
  from fl_finite[OF this] obtain r' where "fl (ay * 6250) = Finite r'" by auto
  then obtain yd where yd: "py_int (fmul (Finite ay) (float_of_int y_scale)) = Inr yd"
    by (simp add: fmul_def k_yscale py_int_def)
  have z: "fmul (Finite w) (fsub (float_of_int 1) (Finite 1)) = Finite 0"
    by (simp add: fsub_def fmul_def k_f1 fl_def)
  have d: "truediv (Finite ax) (Finite 0) = Inl ZeroDivisionError"
    by (simp add: truediv_def)
  show ?thesis
    unfolding calculate_grid_body_def Let_def
    by (simp add: assms(1) xd yd k_aspect z d)
qed

section \<open>The plan in terms of the rounding\<close>

lemma in_range_Finite:
  assumes "in_range a b x"
  obtains r where "x = Finite r" "0 < r"
  using assms by (rule in_rangeD)

lemma aspect_rounded: "fl (6336 / 9504) = Finite (6004799503160661 / 9007199254740992)"
  using k_aspect by (simp add: int_truediv_def camera_height_px_def camera_width_px_def)

lemma planner_rounded:
  assumes ov: "truediv p (float_of_int 100) = Inr (Finite v)" "- pow2 20 \<le> v" "v < 1"
    and w: "in_range (- 300) 300 (Finite w)"
    and ax: "in_range (- 300) 300 (Finite ax)"
    and ay: "in_range (- 300) 300 (Finite ay)"
  shows "\<exists>s' m a h xs ys qx qy ix iy.
           calculate_grid_body (Some p) (Some (Finite ax)) (Some (Finite ay)) (Some (Finite w)) s
             = Inr s' \<and>
           fl (1 - v) = Finite m \<and> fl (6336 / 9504) = Finite a \<and> fl (w * a) = Finite h \<and>
           fl (w * m) = Finite xs \<and> fl (h * m) = Finite ys \<and> 0 < xs \<and> 0 < ys \<and>
           fl (ax / xs) = Finite qx \<and> fl (ay / ys) = Finite qy \<and>
           fl (xs * 2500) = Finite ix \<and> fl (ys * 6250) = Finite iy \<and>
           x_steps s' = Some (\<lceil>qx\<rceil> + 1) \<and> y_steps s' = Some (\<lceil>qy\<rceil> + 1) \<and>
           x_inc s' = Some \<lfloor>ix\<rfloor> \<and> y_inc s' = Some \<lfloor>iy\<rfloor>"
proof -
  let ?a = "6004799503160661 / 9007199254740992 :: rat"
  have mr: "in_range (- 53) 21 (fsub (float_of_int 1) (Finite v))" using ov by (rule one_minus_range)
  then obtain m where m: "fsub (float_of_int 1) (Finite v) = Finite m" "0 < m"
    by (rule in_range_Finite)
  have m': "fl (1 - v) = Finite m" using m(1) by (simp add: fsub_def k_f1)
  have ar: "in_range (- 1) 0 (Finite ?a)" by (simp add: in_range_def pow2_def)
  have xsr: "in_range (- 353) 321 (fmul (Finite w) (Finite m))"
    using fmul_range[OF w mr] by (simp add: m(1))
  then obtain xs where xs: "fmul (Finite w) (Finite m) = Finite xs" "0 < xs"
    by (rule in_range_Finite)
  have hr: "in_range (- 301) 300 (fmul (Finite w) (Finite ?a))"
    using fmul_range[OF w ar] by simp
  then obtain h where h: "fmul (Finite w) (Finite ?a) = Finite h" "0 < h"
    by (rule in_range_Finite)
  have ysr: "in_range (- 354) 321 (fmul (Finite h) (Finite m))"
    using fmul_range[OF hr mr] by (simp add: m(1) h(1))
  then obtain ys where ys: "fmul (Finite h) (Finite m) = Finite ys" "0 < ys"
    by (rule in_range_Finite)
  have "in_range (- 289) 312 (fmul (Finite ax) (float_of_int x_scale))"
    using fmul_range[OF ax x_scale_range] by simp
  then obtain xd where xd: "py_int (fmul (Finite ax) (float_of_int x_scale)) = Inr xd"
    using py_int_range by blast
  have "in_range (- 288) 313 (fmul (Finite ay) (float_of_int y_scale))"
    using fmul_range[OF ay y_scale_range] by simp
  then obtain yd where yd: "py_int (fmul (Finite ay) (float_of_int y_scale)) = Inr yd"
    using py_int_range by blast
  obtain qx' where qx': "truediv (Finite ax) (Finite xs) = Inr qx'"
    and qxr: "in_range (- 621) 653 qx'"
    using truediv_range[OF ax xsr[unfolded xs(1)]] by auto
  from qxr obtain qx where qx: "qx' = Finite qx" "0 < qx" by (rule in_range_Finite)
  have qxf: "fl (ax / xs) = Finite qx" using qx' xs(2) by (simp add: truediv_def qx(1))
  obtain qy' where qy': "truediv (Finite ay) (Finite ys) = Inr qy'"
    and qyr: "in_range (- 621) 654 qy'"
    using truediv_range[OF ay ysr[unfolded ys(1)]] by auto
  from qyr obtain qy where qy: "qy' = Finite qy" "0 < qy" by (rule in_range_Finite)
  have qyf: "fl (ay / ys) = Finite qy" using qy' ys(2) by (simp add: truediv_def qy(1))
  have "in_range (- 342) 333 (fmul (Finite xs) (float_of_int x_scale))"
    using fmul_range[OF xsr[unfolded xs(1)] x_scale_range] by simp
  then obtain ix where ix: "fmul (Finite xs) (float_of_int x_scale) = Finite ix" "0 < ix"
    by (rule in_range_Finite)
  have "in_range (- 342) 334 (fmul (Finite ys) (float_of_int y_scale))"
    using fmul_range[OF ysr[unfolded ys(1)] y_scale_range] by simp
  then obtain iy where iy: "fmul (Finite ys) (float_of_int y_scale) = Finite iy" "0 < iy"
    by (rule in_range_Finite)
  have body: "calculate_grid_body (Some p) (Some (Finite ax)) (Some (Finite ay)) (Some (Finite w)) s
      = Inr (s\<lparr>overlap := Finite v, fov_width_mm := Finite w, x_dimension := xd,
               y_dimension := yd, x_inc := Some \<lfloor>ix\<rfloor>, y_inc := Some \<lfloor>iy\<rfloor>,
               x_steps := Some (\<lceil>qx\<rceil> + 1), y_steps := Some (\<lceil>qy\<rceil> + 1),
               status_var := ''Grid calculation complete''\<rparr>)"
  proof -
    have c: "math_ceil (Finite qx) = Inr \<lceil>qx\<rceil>" "math_ceil (Finite qy) = Inr \<lceil>qy\<rceil>"
      by (simp_all add: math_ceil_def)
    have i: "py_int (Finite ix) = Inr \<lfloor>ix\<rfloor>" "py_int (Finite iy) = Inr \<lfloor>iy\<rfloor>"
      using ix(2) iy(2) by (simp_all add: py_int_def)
    show ?thesis
      unfolding calculate_grid_body_def Let_def
      by (simp add: ov(1) xd yd k_aspect m(1) xs(1) h(1) ys(1) qx' qx(1) qy' qy(1) ix(1) iy(1)
            c i)
  qed
  have f: "fl (w * ?a) = Finite h" "fl (w * m) = Finite xs" "fl (h * m) = Finite ys"
    "fl (xs * 2500) = Finite ix" "fl (ys * 6250) = Finite iy"
    using h(1) xs(1) ys(1) ix(1) iy(1) by (simp_all add: fmul_def k_xscale k_yscale)
  show ?thesis
    apply (intro exI conjI)
                   apply (rule body)
                  apply (rule m')
                 apply (rule aspect_rounded)
                apply (rule f(1))
               apply (rule f(2))
              apply (rule f(3))
             apply (rule xs(2))
            apply (rule ys(2))
           apply (rule qxf)
          apply (rule qyf)
         apply (rule f(4))
        apply (rule f(5))
       apply simp_all
    done
qed

section \<open>Claims about the grid planner\<close>

lemma calculate_grid_Inr: 
  "calculate_grid_body a b c d s = Inr s' \<Longrightarrow> calculate_grid a b c d s = Inr s'"
  by (simp add: calculate_grid_def)

lemma calculate_grid_zero_division:
  "calculate_grid_body a b c d s = Inl (ZeroDivisionError, s')
     \<Longrightarrow> calculate_grid a b c d s = Inl (ZeroDivisionError, s')"
  by (simp add: calculate_grid_def)

lemma spec_example:
  "spec_steps 500 (26829 / 100) (2 / 10) = 4"
  "spec_steps 500 (spec_fov_height (26829 / 100)) (2 / 10) = 5"
  "spec_increment (26829 / 100) (2 / 10) 2500 = 536580"
  "spec_increment (spec_fov_height (26829 / 100)) (2 / 10) 6250 = 894300"
proof -
  have "\<lceil>312500 / 134145 :: rat\<rceil> = 3" by (rule ceiling_unique) simp_all
  then show "spec_steps 500 (26829 / 100) (2 / 10) = 4"
    by (simp add: spec_steps_def spec_step_mm_def)
  have "\<lceil>156250 / 44715 :: rat\<rceil> = 4" by (rule ceiling_unique) simp_all
  then show "spec_steps 500 (spec_fov_height (26829 / 100)) (2 / 10) = 5"
    by (simp add: spec_steps_def spec_step_mm_def spec_fov_height_def)
  show "spec_increment (26829 / 100) (2 / 10) 2500 = 536580"
    by (simp add: spec_increment_def spec_step_mm_def)
  show "spec_increment (spec_fov_height (26829 / 100)) (2 / 10) 6250 = 894300"
    by (simp add: spec_increment_def spec_step_mm_def spec_fov_height_def)
qed

lemma spec_rounded_up:
  "spec_steps 63 3 (3 / 10) = 31"
  "spec_steps 63 3 (5404319552844595 / 18014398509481984) = 31"
  "spec_steps 21 (spec_fov_height 3) (3 / 10) = 16"
  "spec_increment 3 (3 / 10) 2500 = 5250"
proof -
  show "spec_steps 63 3 (3 / 10) = 31"
    by (simp add: spec_steps_def spec_step_mm_def)
  have "\<lceil>378302368699121664 / 12610078956637389 :: rat\<rceil> = 30"
    by (rule ceiling_unique) simp_all
  then show "spec_steps 63 3 (5404319552844595 / 18014398509481984) = 31"
    by (simp add: spec_steps_def spec_step_mm_def)
  show "spec_steps 21 (spec_fov_height 3) (3 / 10) = 16"
    by (simp add: spec_steps_def spec_step_mm_def spec_fov_height_def)
  show "spec_increment 3 (3 / 10) 2500 = 5250"
    by (simp add: spec_increment_def spec_step_mm_def)
qed

text \<open>
  C1, as amended. For an overlap fraction \<open>o\<close> from \<open>-2^20\<close> up to but not including 1,
  and a field-of-view width \<open>w\<close> and area dimensions \<open>ax\<close>, \<open>ay\<close> between \<open>2^-300\<close> and
  \<open>2^300\<close>, the planner returns a plan, computed with every operation rounded to the
  nearest binary64 value (\<open>fl\<close>): the step distances are \<open>w * (1 - o)\<close> and
  \<open>(w * (6336 / 9504)) * (1 - o)\<close>, the step counts the ceilings of the area dimensions over
  the step distances, plus 1, and the increments the whole encoder steps in the step
  distances times 2500 and 6250. For overlap 20 percent, field of view 268.29 and area
  500 by 500 the plan is 4 by 5 steps with increments 536580 and 894300, which are the
  values of the closed forms in exact arithmetic.
\<close>

theorem grid_planner_rounded:
  "(truediv p (float_of_int 100) = Inr (Finite ov) \<and> - pow2 20 \<le> ov \<and> ov < 1 \<and>
    pow2 (- 300) \<le> w \<and> w \<le> pow2 300 \<and>
    pow2 (- 300) \<le> ax \<and> ax \<le> pow2 300 \<and>
    pow2 (- 300) \<le> ay \<and> ay \<le> pow2 300 \<longrightarrow>
      (\<exists>s' m a h xs ys qx qy ix iy.
          calculate_grid (Some p) (Some (Finite ax)) (Some (Finite ay)) (Some (Finite w)) s
            = Inr s' \<and>
          fl (1 - ov) = Finite m \<and> fl (6336 / 9504) = Finite a \<and> fl (w * a) = Finite h \<and>
          fl (w * m) = Finite xs \<and> fl (h * m) = Finite ys \<and> 0 < xs \<and> 0 < ys \<and>
          fl (ax / xs) = Finite qx \<and> fl (ay / ys) = Finite qy \<and>
          fl (xs * 2500) = Finite ix \<and> fl (ys * 6250) = Finite iy \<and>
          x_steps s' = Some (\<lceil>qx\<rceil> + 1) \<and> y_steps s' = Some (\<lceil>qy\<rceil> + 1) \<and>
          x_inc s' = Some \<lfloor>ix\<rfloor> \<and> y_inc s' = Some \<lfloor>iy\<rfloor>)) \<and>
   (\<exists>s'. calculate_grid (Some (py_float 20)) (Some (py_float 500)) (Some (py_float 500))
            (Some (py_float (26829 / 100))) init_gui = Inr s' \<and>
         x_steps s' = Some 4 \<and> y_steps s' = Some 5 \<and>
         x_inc s' = Some 536580 \<and> y_inc s' = Some 894300 \<and>
         x_steps s' = Some (spec_steps 500 (26829 / 100) (2 / 10)) \<and>
         y_steps s' = Some (spec_steps 500 (spec_fov_height (26829 / 100)) (2 / 10)) \<and>
         x_inc s' = Some (spec_increment (26829 / 100) (2 / 10) 2500) \<and>
         y_inc s' = Some (spec_increment (spec_fov_height (26829 / 100)) (2 / 10) 6250))"
proof (intro conjI impI)
  assume a: "truediv p (float_of_int 100) = Inr (Finite ov) \<and> - pow2 20 \<le> ov \<and> ov < 1 \<and>
    pow2 (- 300) \<le> w \<and> w \<le> pow2 300 \<and>
    pow2 (- 300) \<le> ax \<and> ax \<le> pow2 300 \<and>
    pow2 (- 300) \<le> ay \<and> ay \<le> pow2 300"
  then have r: "in_range (- 300) 300 (Finite w)" "in_range (- 300) 300 (Finite ax)"
    "in_range (- 300) 300 (Finite ay)"
    by (simp_all add: in_range_def)
  from a have o: "truediv p (float_of_int 100) = Inr (Finite ov)" "- pow2 20 \<le> ov" "ov < 1"
    by simp_all
  from planner_rounded[OF o r, of s] obtain s' m a h xs ys qx qy ix iy where
    b: "calculate_grid_body (Some p) (Some (Finite ax)) (Some (Finite ay)) (Some (Finite w)) s
          = Inr s'"
    and f: "fl (1 - ov) = Finite m \<and> fl (6336 / 9504) = Finite a \<and> fl (w * a) = Finite h \<and>
          fl (w * m) = Finite xs \<and> fl (h * m) = Finite ys \<and> 0 < xs \<and> 0 < ys \<and>
          fl (ax / xs) = Finite qx \<and> fl (ay / ys) = Finite qy \<and>
          fl (xs * 2500) = Finite ix \<and> fl (ys * 6250) = Finite iy \<and>
          x_steps s' = Some (\<lceil>qx\<rceil> + 1) \<and> y_steps s' = Some (\<lceil>qy\<rceil> + 1) \<and>
          x_inc s' = Some \<lfloor>ix\<rfloor> \<and> y_inc s' = Some \<lfloor>iy\<rfloor>"
    by blast
  from calculate_grid_Inr[OF b] f
  show "\<exists>s' m a h xs ys qx qy ix iy.
          calculate_grid (Some p) (Some (Finite ax)) (Some (Finite ay)) (Some (Finite w)) s
            = Inr s' \<and>
          fl (1 - ov) = Finite m \<and> fl (6336 / 9504) = Finite a \<and> fl (w * a) = Finite h \<and>
          fl (w * m) = Finite xs \<and> fl (h * m) = Finite ys \<and> 0 < xs \<and> 0 < ys \<and>
          fl (ax / xs) = Finite qx \<and> fl (ay / ys) = Finite qy \<and>
          fl (xs * 2500) = Finite ix \<and> fl (ys * 6250) = Finite iy \<and>
          x_steps s' = Some (\<lceil>qx\<rceil> + 1) \<and> y_steps s' = Some (\<lceil>qy\<rceil> + 1) \<and>
          x_inc s' = Some \<lfloor>ix\<rfloor> \<and> y_inc s' = Some \<lfloor>iy\<rfloor>"
    by blast
next
  show "\<exists>s'. calculate_grid (Some (py_float 20)) (Some (py_float 500)) (Some (py_float 500))
            (Some (py_float (26829 / 100))) init_gui = Inr s' \<and>
         x_steps s' = Some 4 \<and> y_steps s' = Some 5 \<and>
         x_inc s' = Some 536580 \<and> y_inc s' = Some 894300 \<and>
         x_steps s' = Some (spec_steps 500 (26829 / 100) (2 / 10)) \<and>
         y_steps s' = Some (spec_steps 500 (spec_fov_height (26829 / 100)) (2 / 10)) \<and>
         x_inc s' = Some (spec_increment (26829 / 100) (2 / 10) 2500) \<and>
         y_inc s' = Some (spec_increment (spec_fov_height (26829 / 100)) (2 / 10) 6250)"
    unfolding calculate_grid_Inr[OF example_plan] spec_example by simp
qed

theorem grid_planner_rounded_witness:
  "\<exists>s' (qx :: rat) (qy :: rat).
          calculate_grid (Some (py_float 20)) (Some (Finite 500)) (Some (Finite 500))
            (Some (Finite (4719807593856369 / 17592186044416))) init_gui = Inr s' \<and>
          x_steps s' = Some (\<lceil>qx\<rceil> + 1) \<and> y_steps s' = Some (\<lceil>qy\<rceil> + 1) \<and>
          \<lceil>qx\<rceil> + 1 = 4 \<and> \<lceil>qy\<rceil> + 1 = 5"
proof -
  have "truediv (py_float 20) (float_of_int 100)
          = Inr (Finite (3602879701896397 / 18014398509481984))"
    by (simp add: ex_percent k_f100 ex_ov)
  moreover have "- pow2 20 \<le> (3602879701896397 / 18014398509481984 :: rat)"
    "(3602879701896397 / 18014398509481984 :: rat) < 1"
    "pow2 (- 300) \<le> (4719807593856369 / 17592186044416 :: rat)"
    "(4719807593856369 / 17592186044416 :: rat) \<le> pow2 300"
    "pow2 (- 300) \<le> (500 :: rat)" "(500 :: rat) \<le> pow2 300"
    by (simp_all add: pow2_def)
  ultimately have hyp: "truediv (py_float 20) (float_of_int 100)
        = Inr (Finite (3602879701896397 / 18014398509481984)) \<and>
      - pow2 20 \<le> (3602879701896397 / 18014398509481984 :: rat) \<and>
      (3602879701896397 / 18014398509481984 :: rat) < 1 \<and>
      pow2 (- 300) \<le> (4719807593856369 / 17592186044416 :: rat) \<and>
      (4719807593856369 / 17592186044416 :: rat) \<le> pow2 300 \<and>
      pow2 (- 300) \<le> (500 :: rat) \<and> (500 :: rat) \<le> pow2 300 \<and>
      pow2 (- 300) \<le> (500 :: rat) \<and> (500 :: rat) \<le> pow2 300"
    by (intro conjI)
  from grid_planner_rounded[THEN conjunct1, rule_format, OF hyp, of init_gui]
  obtain s' and qx qy :: rat where
    c: "calculate_grid (Some (py_float 20)) (Some (Finite 500)) (Some (Finite 500))
            (Some (Finite (4719807593856369 / 17592186044416))) init_gui = Inr s'"
    and n: "x_steps s' = Some (\<lceil>qx\<rceil> + 1)" "y_steps s' = Some (\<lceil>qy\<rceil> + 1)"
    by blast
  have "calculate_grid (Some (py_float 20)) (Some (Finite 500)) (Some (Finite 500))
             (Some (Finite (4719807593856369 / 17592186044416))) init_gui =
           Inr (init_gui\<lparr>overlap := Finite (3602879701896397 / 18014398509481984),
            fov_width_mm := Finite (4719807593856369 / 17592186044416),
            x_dimension := 1250000, y_dimension := 3125000,
            x_inc := Some 536580, y_inc := Some 894300, x_steps := Some 4, y_steps := Some 5,
            status_var := ''Grid calculation complete''\<rparr>)"
    using calculate_grid_Inr[OF example_plan[of init_gui]] by (simp add: ex_ax ex_w)
  with c n have "\<lceil>qx\<rceil> + 1 = 4" "\<lceil>qy\<rceil> + 1 = 5" by auto
  with c n show ?thesis by blast
qed

text \<open>
  The claim C1 as stated fails: the closed forms in exact arithmetic are not what the
  planner computes. With overlap 30 percent, field of view 3 and area 63 by 21 the planner
  returns a plan of 32 by 17 steps with an increment of 5249 in \<open>x\<close>, where the closed forms
  give 31 by 16 steps and an increment of 5250 (31 steps in \<open>x\<close> also for the overlap
  fraction the float 0.3 denotes).
\<close>

theorem grid_planner_counterexample:
  "calculate_grid (Some (py_float 30)) (Some (py_float 63)) (Some (py_float 21))
       (Some (py_float 3)) init_gui =
     Inr (init_gui\<lparr>overlap := Finite (5404319552844595 / 18014398509481984),
            fov_width_mm := Finite 3, x_dimension := 157500, y_dimension := 131250,
            x_inc := Some 5249, y_inc := Some 8750, x_steps := Some 32, y_steps := Some 17,
            status_var := ''Grid calculation complete''\<rparr>) \<and>
   spec_steps 63 3 (3 / 10) = 31 \<and>
   spec_steps 63 3 (5404319552844595 / 18014398509481984) = 31 \<and>
   spec_steps 21 (spec_fov_height 3) (3 / 10) = 16 \<and>
   spec_increment 3 (3 / 10) 2500 = 5250"
  using calculate_grid_Inr[OF rounded_up_plan[of init_gui]] spec_rounded_up by simp

text \<open>
  C5, as amended. For an overlap fraction below 1 and a positive field-of-view width and
  positive area dimensions, a plan the planner returns has a column count and a row
  count of at least 1.
\<close>

theorem planner_counts_at_least_1:
  assumes "calculate_grid_body (Some p) (Some (Finite ax)) (Some (Finite ay)) (Some (Finite w)) s
             = Inr s'"
    and "truediv p (float_of_int 100) = Inr (Finite ov)"
    and "ov < 1" "0 < w" "0 < ax" "0 < ay"
  shows "\<exists>nx ny. x_steps s' = Some nx \<and> y_steps s' = Some ny \<and> 1 \<le> nx \<and> 1 \<le> ny"
  using assms by (rule counts_ge_1)

theorem planner_counts_at_least_1_witness:
  "\<exists>s' nx ny.
      calculate_grid_body (Some (py_float 20)) (Some (py_float 500)) (Some (py_float 500))
        (Some (py_float (26829 / 100))) init_gui = Inr s' \<and>
      x_steps s' = Some nx \<and> y_steps s' = Some ny \<and> 1 \<le> nx \<and> 1 \<le> ny"
proof -
  have b: "calculate_grid_body (Some (py_float 20)) (Some (Finite 500)) (Some (Finite 500))
             (Some (Finite (4719807593856369 / 17592186044416))) init_gui =
           Inr (init_gui\<lparr>overlap := Finite (3602879701896397 / 18014398509481984),
            fov_width_mm := Finite (4719807593856369 / 17592186044416),
            x_dimension := 1250000, y_dimension := 3125000,
            x_inc := Some 536580, y_inc := Some 894300, x_steps := Some 4, y_steps := Some 5,
            status_var := ''Grid calculation complete''\<rparr>)"
    using example_plan[of init_gui] by (simp add: ex_ax ex_w)
  have o: "truediv (py_float 20) (float_of_int 100)
             = Inr (Finite (3602879701896397 / 18014398509481984))"
    by (simp add: ex_percent k_f100 ex_ov)
  from planner_counts_at_least_1[OF b o] show ?thesis
    by (simp add: example_plan)
qed

text \<open>
  The claim C5 as stated fails: with overlap 150 percent, field-of-view width 256 and
  area 512 by 512 the planner returns a plan of -3 by -5 steps.
\<close>

theorem planner_counts_counterexample:
  "calculate_grid_body (Some (py_float 150)) (Some (py_float 512)) (Some (py_float 512))
       (Some (py_float 256)) init_gui =
     Inr (init_gui\<lparr>overlap := Finite (3 / 2), fov_width_mm := Finite 256,
            x_dimension := 1280000, y_dimension := 3200000,
            x_inc := Some (- 320000), y_inc := Some (- 533333),
            x_steps := Some (- 3), y_steps := Some (- 5),
            status_var := ''Grid calculation complete''\<rparr>)"
  by (rule wide_overlap_plan)

text \<open>
  C6, as amended. With an overlap fraction of exactly 1 the planner raises
  \<^verbatim>\<open>ZeroDivisionError\<close>, for every finite field-of-view width and all area dimensions of
  at most \<open>2^1000\<close> in absolute value. With an overlap fraction from \<open>-2^20\<close> up to but
  not including 1, and a field-of-view width and area dimensions between \<open>2^-300\<close> and
  \<open>2^300\<close>, it completes without error and sets the step counts.
\<close>

theorem planner_failures:
  "(truediv p (float_of_int 100) = Inr (Finite 1) \<and> \<bar>ax\<bar> \<le> pow2 1000 \<and> \<bar>ay\<bar> \<le> pow2 1000 \<longrightarrow>
      (\<exists>s'. calculate_grid (Some p) (Some (Finite ax)) (Some (Finite ay)) (Some (Finite w)) s
               = Inl (ZeroDivisionError, s'))) \<and>
   (truediv p (float_of_int 100) = Inr (Finite ov) \<and> - pow2 20 \<le> ov \<and> ov < 1 \<and>
    pow2 (- 300) \<le> w \<and> w \<le> pow2 300 \<and>
    pow2 (- 300) \<le> ax \<and> ax \<le> pow2 300 \<and>
    pow2 (- 300) \<le> ay \<and> ay \<le> pow2 300 \<longrightarrow>
      (\<exists>s' nx ny. calculate_grid (Some p) (Some (Finite ax)) (Some (Finite ay)) (Some (Finite w)) s
                     = Inr s' \<and> x_steps s' = Some nx \<and> y_steps s' = Some ny))"
proof (intro conjI impI)
  assume "truediv p (float_of_int 100) = Inr (Finite 1) \<and> \<bar>ax\<bar> \<le> pow2 1000 \<and> \<bar>ay\<bar> \<le> pow2 1000"
  then obtain s' where
    "calculate_grid_body (Some p) (Some (Finite ax)) (Some (Finite ay)) (Some (Finite w)) s
       = Inl (ZeroDivisionError, s')"
    using planner_zero_division[of p ax ay w s] by blast
  then show "\<exists>s'. calculate_grid (Some p) (Some (Finite ax)) (Some (Finite ay)) (Some (Finite w)) s
                = Inl (ZeroDivisionError, s')"
    using calculate_grid_zero_division by blast
next
  assume a: "truediv p (float_of_int 100) = Inr (Finite ov) \<and> - pow2 20 \<le> ov \<and> ov < 1 \<and>
    pow2 (- 300) \<le> w \<and> w \<le> pow2 300 \<and>
    pow2 (- 300) \<le> ax \<and> ax \<le> pow2 300 \<and>
    pow2 (- 300) \<le> ay \<and> ay \<le> pow2 300"
  then have "in_range (- 300) 300 (Finite w)" "in_range (- 300) 300 (Finite ax)"
    "in_range (- 300) 300 (Finite ay)"
    by (simp_all add: in_range_def)
  from planner_completes[OF _ _ _ this, of p ov s] a obtain s' where
    b: "calculate_grid_body (Some p) (Some (Finite ax)) (Some (Finite ay)) (Some (Finite w)) s
          = Inr s'"
    by blast
  from calculate_grid_body_Inr[OF b] obtain nx ny where
    "x_steps s' = Some nx" "y_steps s' = Some ny" by auto
  with calculate_grid_Inr[OF b]
  show "\<exists>s' nx ny. calculate_grid (Some p) (Some (Finite ax)) (Some (Finite ay)) (Some (Finite w)) s
                     = Inr s' \<and> x_steps s' = Some nx \<and> y_steps s' = Some ny"
    by blast
qed

theorem planner_failures_witness:
  "(\<exists>s'. calculate_grid (Some (py_float 100)) (Some (Finite 500)) (Some (Finite 500))
            (Some (Finite (26829 / 100))) init_gui = Inl (ZeroDivisionError, s')) \<and>
   (\<exists>s' nx ny. calculate_grid (Some (py_float 20)) (Some (Finite 500)) (Some (Finite 500))
            (Some (Finite (26829 / 100))) init_gui = Inr s' \<and>
          x_steps s' = Some nx \<and> y_steps s' = Some ny)"
proof
  have "truediv (py_float 100) (float_of_int 100) = Inr (Finite 1)"
    by (simp add: full_percent k_f100 full_ov)
  moreover have "\<bar>500 :: rat\<bar> \<le> pow2 1000" by (simp add: pow2_def)
  ultimately show "\<exists>s'. calculate_grid (Some (py_float 100)) (Some (Finite 500)) (Some (Finite 500))
            (Some (Finite (26829 / 100))) init_gui = Inl (ZeroDivisionError, s')"
    using planner_failures[THEN conjunct1, rule_format, of "py_float 100" 500 500] by blast
next
  have "truediv (py_float 20) (float_of_int 100)
          = Inr (Finite (3602879701896397 / 18014398509481984))"
    by (simp add: ex_percent k_f100 ex_ov)
  moreover have "- pow2 20 \<le> (3602879701896397 / 18014398509481984 :: rat)"
    "pow2 (- 300) \<le> (26829 / 100 :: rat)" "(26829 / 100 :: rat) \<le> pow2 300"
    "pow2 (- 300) \<le> (500 :: rat)" "(500 :: rat) \<le> pow2 300"
    by (simp_all add: pow2_def)
  ultimately show "\<exists>s' nx ny. calculate_grid (Some (py_float 20)) (Some (Finite 500))
            (Some (Finite 500)) (Some (Finite (26829 / 100))) init_gui = Inr s' \<and>
          x_steps s' = Some nx \<and> y_steps s' = Some ny"
    using planner_failures[THEN conjunct2, rule_format, of "py_float 20"
        "3602879701896397 / 18014398509481984" "26829 / 100" 500 500 init_gui]
    by simp
qed

text \<open>
  The claim C6 as stated fails on both sides: with overlap 150 percent (a fraction of
  1.5) the planner divides by no zero and returns a plan, and with overlap 20 percent
  and a field-of-view width of 0 it raises \<^verbatim>\<open>ZeroDivisionError\<close>.
\<close>

theorem planner_failures_counterexample:
  "calculate_grid (Some (py_float 150)) (Some (py_float 512)) (Some (py_float 512))
       (Some (py_float 256)) init_gui =
     Inr (init_gui\<lparr>overlap := Finite (3 / 2), fov_width_mm := Finite 256,
            x_dimension := 1280000, y_dimension := 3200000,
            x_inc := Some (- 320000), y_inc := Some (- 533333),
            x_steps := Some (- 3), y_steps := Some (- 5),
            status_var := ''Grid calculation complete''\<rparr>) \<and>
   calculate_grid (Some (py_float 20)) (Some (py_float 500)) (Some (py_float 500))
       (Some (py_float 0)) init_gui =
     Inl (ZeroDivisionError,
          init_gui\<lparr>overlap := Finite (3602879701896397 / 18014398509481984),
            fov_width_mm := Finite 0, x_dimension := 1250000, y_dimension := 3125000\<rparr>)"
  using calculate_grid_Inr[OF wide_overlap_plan[of init_gui]]
    calculate_grid_zero_division[OF zero_fov_plan[of init_gui]]
  by simp

section \<open>Steps of the sequencer\<close>

lemma added_append: "trace s' = trace s @ new \<Longrightarrow> added s s' = new"
  by (simp add: added_def)

lemma added_same: "trace s' = trace s \<Longrightarrow> added s s' = []"
  by (simp add: added_def)

lemma moves_append [simp]: "moves (a @ b) = moves a @ moves b"
  by (induction a rule: moves.induct) simp_all

lemma moves_plain: "list_all plain es \<Longrightarrow> moves es = []"
  by (induction es rule: moves.induct) simp_all

lemma stop_reads_append [simp]: "stop_reads (a @ b) = (stop_reads a \<and> stop_reads b)"
  by (simp add: stop_reads_def)

lemma stop_reads_simps [simp]:
  "stop_reads []" "stop_reads (e # es) = (e = ReadStop True \<and> stop_reads es)"
  by (simp_all add: stop_reads_def)

lemma stop_reads_quiet: "stop_reads es \<Longrightarrow> quiet_after_stop es"
  by (induction es) simp_all

lemma quiet_append:
  "quiet_after_stop a \<Longrightarrow> quiet_after_stop b
     \<Longrightarrow> (ReadStop True \<in> set a \<Longrightarrow> stop_reads b) \<Longrightarrow> quiet_after_stop (a @ b)"
  by (induction a) (auto split: if_splits)

lemma quiet_plain: "list_all plain es \<Longrightarrow> quiet_after_stop es"
  by (induction es) auto

lemma plain_no_stop_read: "list_all plain es \<Longrightarrow> ReadStop True \<notin> set es"
  by (induction es) auto

lemma answered_append [simp]:
  "answered env h (a @ b) = (answered env h a \<and> answered env (h @ a) b)"
  by (induction a arbitrary: h) simp_all

lemma answered_plain: "list_all plain es \<Longrightarrow> answered env h es"
proof (induction es arbitrary: h)
  case Nil
  then show ?case by simp
next
  case (Cons e es)
  then show ?case by (cases e) simp_all
qed

lemma answered_stop_reads: "stop_reads es \<Longrightarrow> answered env h es"
  by (induction es arbitrary: h) simp_all

text \<open>Plain steps compose, and the steps of the camera are plain.\<close>

lemma plain_step_refl:
  "trace s' = trace s \<Longrightarrow> x_limit s' = x_limit s \<Longrightarrow> y_limit s' = y_limit s
     \<Longrightarrow> stop_imaging s' = stop_imaging s \<Longrightarrow> aim_x s' = aim_x s \<Longrightarrow> aim_y s' = aim_y s
     \<Longrightarrow> image_count s' = image_count s \<Longrightarrow> camera_connected s' = camera_connected s
     \<Longrightarrow> ser s' = ser s \<Longrightarrow> arduino_mega s' = arduino_mega s \<Longrightarrow> plain_step s s'"
  by (simp add: plain_step_def added_same)

lemma plain_step_trans:
  assumes "plain_step s s1" "plain_step s1 s2"
  shows "plain_step s s2"
proof -
  from assms have t: "trace s2 = trace s @ (added s s1 @ added s1 s2)"
    unfolding plain_step_def by (elim conjE) simp
  then have "added s s2 = added s s1 @ added s1 s2" by (rule added_append)
  with assms t show ?thesis by (simp add: plain_step_def)
qed

lemma plain_step_emit: "plain e \<Longrightarrow> plain_step s (emit e s)"
  by (simp add: plain_step_def emit_def added_def)

lemma plain_step_sleep: "plain_step s (sleep ms s)"
  by (simp add: sleep_def plain_step_emit)

lemma plain_step_info: "plain_step s (s\<lparr>camera_info_var := m\<rparr>)"
  by (simp add: plain_step_def added_def)

lemma plain_step_info': "plain_step s s1 \<Longrightarrow> plain_step s (s1\<lparr>camera_info_var := m\<rparr>)"
  by (erule plain_step_trans) (rule plain_step_info)

lemma plain_step_send: "plain_step s (snd (send_camera_command env cmd s))"
proof -
  let ?w = "emit (SerWrite (cmd @ [CHR 0x0A])) s"
  have w: "plain_step s ?w" by (simp add: plain_step_emit)
  have ws: "plain_step s (sleep 500 ?w)"
    using w plain_step_sleep by (rule plain_step_trans)
  show ?thesis
    unfolding send_camera_command_def Let_def
    by (auto split: sum.splits intro: plain_step_info plain_step_info' w ws)
qed

lemma plain_step_control_filter: "plain_step s (control_filter env b s)"
  unfolding control_filter_def
  using plain_step_send[of s env "if b then ''FILTER,ON'' else ''FILTER,OFF''"]
  by (auto split: prod.splits intro: plain_step_info' plain_step_refl)

lemma plain_step_do_step:
  "do_step env p s = Inr s' \<Longrightarrow> plain_step s s'"
  "do_step env p s = Inl (msg, s') \<Longrightarrow> plain_step s s'"
proof -
  have m: "plain_step s (sleep ms (emit (MegaWrite w) s))" for ms w
    by (rule plain_step_trans[OF plain_step_emit plain_step_sleep]) simp
  show "do_step env p s = Inr s' \<Longrightarrow> plain_step s s'"
    by (cases p)
      (auto split: sum.splits if_splits
        intro: plain_step_emit plain_step_sleep plain_step_send m plain_step_refl)
  show "do_step env p s = Inl (msg, s') \<Longrightarrow> plain_step s s'"
    by (cases p) (auto split: sum.splits if_splits intro: plain_step_emit)
qed

lemma plain_step_run_steps:
  "run_steps env ps s = Inr s' \<Longrightarrow> plain_step s s'"
  "run_steps env ps s = Inl (msg, s') \<Longrightarrow> plain_step s s'"
proof (induction ps arbitrary: s)
  case Nil
  { case 1 then show ?case by (auto intro: plain_step_refl) }
  { case 2 then show ?case by simp }
next
  case (Cons p ps)
  { case 1
    then show ?case
      by (auto split: sum.splits intro: plain_step_trans plain_step_do_step(1) Cons.IH(1)) }
  { case 2
    then show ?case
      by (auto split: sum.splits
          intro: plain_step_trans plain_step_do_step Cons.IH(2)) }
qed

lemma plain_step_take_both_photos: "plain_step s (take_both_photos env s)"
proof (cases "camera_connected s")
  case False
  then show ?thesis by (simp add: take_both_photos_def plain_step_refl)
next
  case True
  define ps where
    "ps = [MkDir, Mega ''RED'' 2000, Cam ''SHUTTER'', Nap 1000, Mega ''OFF'' 500,
           Cam ''FILTER,ON'', Nap 1000, Mega ''GREEN'' 500, Cam ''SHUTTER'', Nap 1000,
           Mega ''OFF'' 500, Cam ''FILTER,OFF'']"
  have eq: "take_both_photos env s =
      (case run_steps env ps s of
         Inl (msg, s') \<Rightarrow> s'\<lparr>camera_info_var := ''Photo sequence error: '' @ msg\<rparr>
       | Inr s' \<Rightarrow> s'\<lparr>camera_info_var := ''Successfully captured both photos''\<rparr>)"
    unfolding take_both_photos_def ps_def using True by (simp only: not_True_eq_False if_False)
  show ?thesis
  proof (cases "run_steps env ps s")
    case (Inl e)
    obtain msg s' where e: "e = (msg, s')" by (cases e)
    from Inl e have "plain_step s s'" by (auto intro: plain_step_run_steps(2))
    then show ?thesis unfolding eq Inl e by (simp add: plain_step_info')
  next
    case (Inr s')
    then have "plain_step s s'" by (rule plain_step_run_steps(1))
    then show ?thesis unfolding eq Inr by (simp add: plain_step_info')
  qed
qed

text \<open>The invariant of the thread: how it is shown, used and composed.\<close>

lemma goodI:
  assumes "state_of r = s'" "trace s' = trace s @ new"
    and "x_limit s' = x_limit s" "y_limit s' = y_limit s"
    and "stop_imaging s \<Longrightarrow> stop_imaging s' \<and> stop_reads new"
    and "ReadStop True \<in> set new \<Longrightarrow> stop_imaging s'"
    and "quiet_after_stop new" "raise_ok env (trace s) new r" "stopped_break r"
  shows "good env s r"
proof -
  have "added s s' = new" using assms(2) by (rule added_append)
  with assms show ?thesis unfolding good_def by auto
qed

lemma goodE:
  assumes "good env s r"
  obtains new where "trace (state_of r) = trace s @ new"
    "x_limit (state_of r) = x_limit s" "y_limit (state_of r) = y_limit s"
    "stop_imaging s \<longrightarrow> stop_imaging (state_of r) \<and> stop_reads new"
    "ReadStop True \<in> set new \<longrightarrow> stop_imaging (state_of r)"
    "quiet_after_stop new" "raise_ok env (trace s) new r" "stopped_break r"
  using assms unfolding good_def by (auto split: if_splits)

lemma raise_ok_append:
  assumes "answered env h n1" "raise_ok env (h @ n1) n2 r"
  shows "raise_ok env h (n1 @ n2) r"
proof (cases r)
  case (Raise msg s')
  with assms(2) have n2: "n2 \<noteq> []" by (simp add: raise_ok_def)
  then have "butlast (n1 @ n2) = n1 @ butlast n2" "last (n1 @ n2) = last n2"
    by (simp_all add: butlast_append)
  with assms Raise n2 show ?thesis by (simp add: raise_ok_def)
qed (use assms in \<open>simp_all add: raise_ok_def\<close>)

lemma good_trans:
  assumes "good env s (Next s1)" "good env s1 r"
  shows "good env s r"
proof -
  from assms(1) obtain n1 where 1: "trace s1 = trace s @ n1"
    "x_limit s1 = x_limit s" "y_limit s1 = y_limit s"
    "stop_imaging s \<longrightarrow> stop_imaging s1 \<and> stop_reads n1"
    "ReadStop True \<in> set n1 \<longrightarrow> stop_imaging s1"
    "quiet_after_stop n1" "raise_ok env (trace s) n1 (Next s1)" "stopped_break (Next s1)"
    by (rule goodE) simp_all
  from assms(2) obtain n2 where 2: "trace (state_of r) = trace s1 @ n2"
    "x_limit (state_of r) = x_limit s1" "y_limit (state_of r) = y_limit s1"
    "stop_imaging s1 \<longrightarrow> stop_imaging (state_of r) \<and> stop_reads n2"
    "ReadStop True \<in> set n2 \<longrightarrow> stop_imaging (state_of r)"
    "quiet_after_stop n2" "raise_ok env (trace s1) n2 r" "stopped_break r"
    by (rule goodE)
  show ?thesis
  proof (rule goodI[where new = "n1 @ n2" and s' = "state_of r"])
    show "trace (state_of r) = trace s @ n1 @ n2" using 1(1) 2(1) by simp
    show "stop_imaging s \<Longrightarrow> stop_imaging (state_of r) \<and> stop_reads (n1 @ n2)"
      using 1(4) 2(4) by simp
    show "ReadStop True \<in> set (n1 @ n2) \<Longrightarrow> stop_imaging (state_of r)"
      using 1(5) 2(4,5) by auto
    show "quiet_after_stop (n1 @ n2)"
      using 1(5,6) 2(4,6) by (intro quiet_append) simp_all
    show "raise_ok env (trace s) (n1 @ n2) r"
      using 1(7) 2(7) 1(1) by (intro raise_ok_append) (simp_all add: raise_ok_def)
  qed (use 1 2 in simp_all)
qed

lemma good_update:
  assumes "good env s (Next s1)" "trace s2 = trace s1"
    and "x_limit s2 = x_limit s1" "y_limit s2 = y_limit s1"
    and "stop_imaging s1 \<Longrightarrow> stop_imaging s2"
  shows "good env s (Next s2)"
proof -
  from assms(1) obtain n1 where 1: "trace s1 = trace s @ n1"
    "x_limit s1 = x_limit s" "y_limit s1 = y_limit s"
    "stop_imaging s \<longrightarrow> stop_imaging s1 \<and> stop_reads n1"
    "ReadStop True \<in> set n1 \<longrightarrow> stop_imaging s1"
    "quiet_after_stop n1" "raise_ok env (trace s) n1 (Next s1)" "stopped_break (Next s1)"
    by (rule goodE) simp_all
  show ?thesis
    by (rule goodI[where new = n1 and s' = s2])
      (use 1 assms(2-5) in \<open>simp_all add: raise_ok_def stopped_break_def\<close>)
qed

lemma good_break:
  assumes "good env s (Next s1)" "stop_imaging s1"
  shows "good env s (Break s1)"
proof -
  from assms(1) obtain n1 where 1: "trace s1 = trace s @ n1"
    "x_limit s1 = x_limit s" "y_limit s1 = y_limit s"
    "stop_imaging s \<longrightarrow> stop_imaging s1 \<and> stop_reads n1"
    "ReadStop True \<in> set n1 \<longrightarrow> stop_imaging s1"
    "quiet_after_stop n1" "raise_ok env (trace s) n1 (Next s1)" "stopped_break (Next s1)"
    by (rule goodE) simp_all
  show ?thesis
    by (rule goodI[where new = n1 and s' = s1])
      (use 1 assms(2) in \<open>simp_all add: raise_ok_def stopped_break_def\<close>)
qed

lemma good_next:
  assumes "good env s r" "\<And>msg s'. r \<noteq> Raise msg s'"
  shows "good env s (Next (state_of r))"
proof -
  from assms(1) obtain n1 where 1: "trace (state_of r) = trace s @ n1"
    "x_limit (state_of r) = x_limit s" "y_limit (state_of r) = y_limit s"
    "stop_imaging s \<longrightarrow> stop_imaging (state_of r) \<and> stop_reads n1"
    "ReadStop True \<in> set n1 \<longrightarrow> stop_imaging (state_of r)"
    "quiet_after_stop n1" "raise_ok env (trace s) n1 r" "stopped_break r"
    by (rule goodE)
  have "answered env (trace s) n1" using 1(7) assms(2) by (cases r) (auto simp: raise_ok_def)
  then show ?thesis
    by (intro goodI[where new = n1 and s' = "state_of r"])
      (use 1 in \<open>simp_all add: raise_ok_def stopped_break_def\<close>)
qed

lemma good_refl: "good env s (Next s)"
  by (rule goodI[where new = "[]" and s' = s]) (simp_all add: raise_ok_def stopped_break_def)

lemma good_plain:
  assumes "plain_step s s'" "\<not> stop_imaging s"
  shows "good env s (Next s')"
proof -
  from assms(1) have p: "trace s' = trace s @ added s s'" "list_all plain (added s s')"
    "x_limit s' = x_limit s" "y_limit s' = y_limit s" "stop_imaging s' = stop_imaging s"
    by (simp_all add: plain_step_def)
  show ?thesis
    by (rule goodI[where new = "added s s'" and s' = s'])
      (use p assms(2) plain_no_stop_read[OF p(2)] in
        \<open>simp_all add: raise_ok_def stopped_break_def quiet_plain answered_plain\<close>)
qed

lemma read_stop_good:
  assumes "read_stop env s = (b, s1)"
  shows "good env s (Next s1)" "stop_imaging s1 = b" "trace s1 = trace s @ [ReadStop b]"
    "aim_x s1 = aim_x s" "aim_y s1 = aim_y s" "image_count s1 = image_count s"
    "x_limit s1 = x_limit s" "y_limit s1 = y_limit s"
    "b = (stop_imaging s \<or> ui_stopped env (length (trace s)))"
    "camera_connected s1 = camera_connected s"
proof -
  from assms have s1: "s1 = emit (ReadStop b) (s\<lparr>stop_imaging := b\<rparr>)"
    and b: "b = (stop_imaging s \<or> ui_stopped env (length (trace s)))"
    by (auto simp: read_stop_def Let_def)
  show "stop_imaging s1 = b" "trace s1 = trace s @ [ReadStop b]"
    "aim_x s1 = aim_x s" "aim_y s1 = aim_y s" "image_count s1 = image_count s"
    "x_limit s1 = x_limit s" "y_limit s1 = y_limit s" "camera_connected s1 = camera_connected s"
    by (simp_all add: s1 emit_def)
  show "b = (stop_imaging s \<or> ui_stopped env (length (trace s)))" by (rule b)
  show "good env s (Next s1)"
    by (rule goodI[where new = "[ReadStop b]" and s' = s1])
      (use b in \<open>auto simp: s1 emit_def raise_ok_def stopped_break_def\<close>)
qed

lemma gcommand_good:
  assumes "\<not> stop_imaging s"
  shows "gcommand env c s = Inr (reply, s1) \<Longrightarrow> good env s (Next s1)"
    and "gcommand env c s = Inl (msg, s1) \<Longrightarrow> good env s (Raise msg s1)"
proof -
  assume "gcommand env c s = Inr (reply, s1)"
  then have "s1 = emit (GCommand c) s" "gantry env (trace s) = Inr reply"
    by (auto simp: gcommand_def split: sum.splits)
  then show "good env s (Next s1)"
    by (intro goodI[where new = "[GCommand c]" and s' = s1])
      (use assms in \<open>auto simp: emit_def raise_ok_def stopped_break_def\<close>)
next
  assume "gcommand env c s = Inl (msg, s1)"
  then have "s1 = emit (GCommand c) s" "gantry env (trace s) = Inl msg"
    by (auto simp: gcommand_def split: sum.splits)
  then show "good env s (Raise msg s1)"
    by (intro goodI[where new = "[GCommand c]" and s' = s1])
      (use assms in \<open>auto simp: emit_def raise_ok_def stopped_break_def\<close>)
qed

lemma gcommand_frame:
  assumes "gcommand env c s = Inr (reply, s1) \<or> gcommand env c s = Inl (reply, s1)"
  shows "trace s1 = trace s @ [GCommand c]" "stop_imaging s1 = stop_imaging s"
    "aim_x s1 = aim_x s" "aim_y s1 = aim_y s" "image_count s1 = image_count s"
    "x_limit s1 = x_limit s" "y_limit s1 = y_limit s"
    "camera_connected s1 = camera_connected s"
proof -
  from assms have "s1 = emit (GCommand c) s" by (auto simp: gcommand_def split: sum.splits)
  then show "trace s1 = trace s @ [GCommand c]" "stop_imaging s1 = stop_imaging s"
    "aim_x s1 = aim_x s" "aim_y s1 = aim_y s" "image_count s1 = image_count s"
    "x_limit s1 = x_limit s" "y_limit s1 = y_limit s"
    "camera_connected s1 = camera_connected s"
    by (simp_all add: emit_def)
qed

lemma gcommand_reply:
  "gcommand env c s = Inr (reply, s1) \<Longrightarrow> gantry env (trace s) = Inr reply"
  "gcommand env c s = Inl (msg, s1) \<Longrightarrow> gantry env (trace s) = Inl msg"
  by (auto simp: gcommand_def split: sum.splits)

text \<open>Pieces that move nothing.\<close>

lemma kept_refl:
  "trace s' = trace s \<Longrightarrow> aim_x s' = aim_x s \<Longrightarrow> aim_y s' = aim_y s
     \<Longrightarrow> image_count s' = image_count s \<Longrightarrow> camera_connected s' = camera_connected s
     \<Longrightarrow> kept s s'"
  by (simp add: kept_def added_same)

lemma kept_trans:
  assumes "kept s s1" "kept s1 s2"
  shows "kept s s2"
proof -
  from assms have t: "trace s2 = trace s @ (added s s1 @ added s1 s2)"
    unfolding kept_def by (elim conjE) simp
  then have "added s s2 = added s s1 @ added s1 s2" by (rule added_append)
  with assms t show ?thesis by (simp add: kept_def)
qed

lemma kept_plain: "plain_step s s' \<Longrightarrow> kept s s'"
  by (simp add: plain_step_def kept_def moves_plain)

lemma kept_read_stop: "read_stop env s = (b, s1) \<Longrightarrow> kept s s1"
  by (auto simp: read_stop_def Let_def kept_def emit_def added_def)

lemma kept_gcommand_RP:
  "gcommand env RP s = Inr (reply, s1) \<or> gcommand env RP s = Inl (reply, s1) \<Longrightarrow> kept s s1"
  by (auto simp: gcommand_def kept_def emit_def added_def split: sum.splits)

lemma good_cong:
  assumes "good env s0 r" "trace s0 = trace s" "x_limit s0 = x_limit s" "y_limit s0 = y_limit s"
    "stop_imaging s0 = stop_imaging s"
  shows "good env s r"
proof -
  have "added s0 x = added s x" for x by (simp add: added_def assms(2))
  then show ?thesis using assms by (simp add: good_def cong: if_cong)
qed

lemma wait_position_good:
  assumes "wait_position env target s = Some r"
  shows "good env s r \<and> kept s (state_of r) \<and> (\<forall>s'. r \<noteq> Break s')"
  using assms
proof (induction env target s r rule: wait_position.raw_induct[rotated 1, consumes 1])
  case (1 wait_position env target s r)
  obtain stop s1 where rs: "read_stop env s = (stop, s1)" by (cases "read_stop env s")
  note g1 = read_stop_good(1)[OF rs] and k1 = kept_read_stop[OF rs]
  show ?case
  proof (cases stop)
    case True
    with 1(2) rs have "r = Next s1" by simp
    with g1 k1 show ?thesis by simp
  next
    case False
    then have ns: "\<not> stop_imaging s1" using read_stop_good(2)[OF rs] by simp
    show ?thesis
    proof (cases "gcommand env RP s1")
      case (Inl e)
      obtain msg s2 where e: "e = (msg, s2)" by (cases e)
      with 1(2) rs False Inl have r: "r = Raise msg s2" by simp
      have "good env s1 (Raise msg s2)" using gcommand_good(2)[OF ns] Inl e by simp
      with g1 have "good env s r" unfolding r by (rule good_trans)
      moreover have "kept s1 s2" using kept_gcommand_RP[of env s1 msg s2] Inl e by simp
      with k1 have "kept s (state_of r)" unfolding r by (simp add: kept_trans)
      ultimately show ?thesis using r by simp
    next
      case (Inr e)
      obtain pos s2 where e: "e = (pos, s2)" by (cases e)
      have g2: "good env s1 (Next s2)" using gcommand_good(1)[OF ns] Inr e by simp
      have k2: "kept s1 s2" using kept_gcommand_RP[of env s1 pos s2] Inr e by simp
      have ns2: "\<not> stop_imaging s2"
        using gcommand_frame(2)[of env RP s1 pos s2] Inr e ns by simp
      note g12 = good_trans[OF g1 g2] and k12 = kept_trans[OF k1 k2]
      show ?thesis
      proof (cases "pos = target")
        case True
        with 1(2) rs False Inr e have "r = Next s2" by simp
        with g12 k12 show ?thesis by simp
      next
        case ne: False
        with 1(2) rs False Inr e have rec: "wait_position env target (sleep 250 s2) = Some r"
          by simp
        from 1(1)[OF rec] have ih: "good env (sleep 250 s2) r" "kept (sleep 250 s2) (state_of r)"
          "\<forall>s'. r \<noteq> Break s'" by simp_all
        have "good env s2 (Next (sleep 250 s2))"
          using plain_step_sleep ns2 by (rule good_plain)
        from good_trans[OF good_trans[OF g12 this] ih(1)] have "good env s r" .
        moreover have "kept s2 (sleep 250 s2)" using plain_step_sleep by (rule kept_plain)
        from kept_trans[OF kept_trans[OF k12 this] ih(2)] have "kept s (state_of r)" .
        ultimately show ?thesis using ih(3) by simp
      qed
    qed
  qed
qed

lemma wait_continue_good:
  assumes "wait_continue env s = Some s'"
  shows "good env s (Next s') \<and> kept s s'"
  using assms
proof (induction env s s' rule: wait_continue.raw_induct[rotated 1, consumes 1])
  case (1 wait_continue env s s')
  show ?case
  proof (cases "continue_pressed env (trace s)")
    case True
    with 1(2) have s': "s' = s\<lparr>waiting_for_photo := False\<rparr>" by simp
    have "good env s (Next s')"
      using good_refl by (rule good_update) (simp_all add: s')
    moreover have "kept s s'" by (rule kept_refl) (simp_all add: s')
    ultimately show ?thesis by simp
  next
    case False
    obtain stop s1 where rs: "read_stop env s = (stop, s1)" by (cases "read_stop env s")
    note g1 = read_stop_good(1)[OF rs] and k1 = kept_read_stop[OF rs]
    show ?thesis
    proof (cases stop)
      case True
      with 1(2) False rs have "s' = s1" by simp
      with g1 k1 show ?thesis by simp
    next
      case ns: False
      then have ns1: "\<not> stop_imaging s1" using read_stop_good(2)[OF rs] by simp
      from 1(2) False rs ns have rec: "wait_continue env (sleep 100 s1) = Some s'" by simp
      from 1(1)[OF rec] have ih: "good env (sleep 100 s1) (Next s')" "kept (sleep 100 s1) s'"
        by simp_all
      have "good env s1 (Next (sleep 100 s1))" using plain_step_sleep ns1 by (rule good_plain)
      from good_trans[OF good_trans[OF g1 this] ih(1)] have "good env s (Next s')" .
      moreover have "kept s1 (sleep 100 s1)" using plain_step_sleep by (rule kept_plain)
      from kept_trans[OF kept_trans[OF k1 this] ih(2)] have "kept s s'" .
      ultimately show ?thesis by simp
    qed
  qed
qed

lemma capture_good:
  assumes "capture env y x s = Some s'" "\<not> stop_imaging s"
  shows "good env s (Next s')" "trace s' = trace s @ added s s'" "moves (added s s') = []"
    "aim_x s' = aim_x s" "aim_y s' = aim_y s" "image_count s' = image_count s + 1"
    "camera_connected s' = camera_connected s"
proof -
  define s1 where "s1 = s\<lparr>image_count := image_count s + 1,
      status_var := ''Position '' @ str_nat x @ '','' @ str_nat y @ '': Image #''
                      @ str_nat (image_count s + 1)\<rparr>"
  have g1: "good env s (Next s1)" using good_refl by (rule good_update) (simp_all add: s1_def)
  have ns1: "\<not> stop_imaging s1" using assms(2) by (simp add: s1_def)
  have f1: "trace s1 = trace s" "aim_x s1 = aim_x s" "aim_y s1 = aim_y s"
    "image_count s1 = image_count s + 1" "camera_connected s1 = camera_connected s"
    by (simp_all add: s1_def)
  have unf: "capture env y x s =
      (if auto_capture env (trace s1) then Some (sleep 1000 (take_both_photos env s1))
       else wait_continue env
              (emit (Prompt (image_count s1) (str_nat x @ '','' @ str_nat y))
                 (s1\<lparr>waiting_for_photo := True\<rparr>)))"
    unfolding capture_def Let_def s1_def ..
  have "good env s1 (Next s') \<and> kept s1 s'"
  proof (cases "auto_capture env (trace s1)")
    case True
    with assms(1) have s': "s' = sleep 1000 (take_both_photos env s1)"
      unfolding unf by simp
    have "plain_step s1 s'" unfolding s'
      using plain_step_take_both_photos plain_step_sleep by (rule plain_step_trans)
    then show ?thesis using ns1 by (simp add: good_plain kept_plain)
  next
    case False
    define s2 where "s2 = emit (Prompt (image_count s1) (str_nat x @ '','' @ str_nat y))
                            (s1\<lparr>waiting_for_photo := True\<rparr>)"
    from False assms(1) have w: "wait_continue env s2 = Some s'"
      unfolding unf s2_def by simp
    have p: "plain_step s1 s2"
    proof (rule plain_step_trans)
      show "plain_step s1 (s1\<lparr>waiting_for_photo := True\<rparr>)" by (rule plain_step_refl) simp_all
      show "plain_step (s1\<lparr>waiting_for_photo := True\<rparr>) s2"
        unfolding s2_def by (rule plain_step_emit) simp
    qed
    from wait_continue_good[OF w] good_plain[OF p ns1] kept_plain[OF p]
    show ?thesis by (auto intro: good_trans kept_trans)
  qed
  then have g2: "good env s1 (Next s')" and k2: "kept s1 s'" by simp_all
  show "good env s (Next s')" using g1 g2 by (rule good_trans)
  from k2 have t: "trace s' = trace s @ added s1 s'" by (simp add: kept_def f1)
  then have a: "added s s' = added s1 s'" by (rule added_append)
  show "trace s' = trace s @ added s s'" using t a by simp
  show "moves (added s s') = []" using k2 a by (simp add: kept_def)
  show "aim_x s' = aim_x s" "aim_y s' = aim_y s" "image_count s' = image_count s + 1"
    "camera_connected s' = camera_connected s"
    using k2 f1 by (simp_all add: kept_def)
qed

lemma polls_Suc: "polls (Suc n) = [ReadStop False, GCommand RP, Sleep 250] @ polls n"
  by (simp add: polls_def)

lemma wait_position_polls:
  assumes "wait_position env target s = Some r"
  shows "\<exists>n. (\<forall>i<n. \<exists>reply. gantry env (trace s @ polls i @ [ReadStop False]) = Inr reply \<and>
                         reply \<noteq> target) \<and>
             (case r of
                Next s' \<Rightarrow>
                  (stop_imaging s' \<and> trace s' = trace s @ polls n @ [ReadStop True]) \<or>
                  (gantry env (trace s @ polls n @ [ReadStop False]) = Inr target \<and>
                   trace s' = trace s @ polls n @ [ReadStop False, GCommand RP])
              | Raise msg s' \<Rightarrow>
                  gantry env (trace s @ polls n @ [ReadStop False]) = Inl msg \<and>
                  trace s' = trace s @ polls n @ [ReadStop False, GCommand RP]
              | Break s' \<Rightarrow> False)"
  using assms
proof (induction env target s r rule: wait_position.raw_induct[rotated 1, consumes 1])
  case (1 wait_position env target s r)
  obtain stop s1 where rs: "read_stop env s = (stop, s1)" by (cases "read_stop env s")
  note t1 = read_stop_good(3)[OF rs]
  show ?case
  proof (cases stop)
    case True
    with 1(2) rs have "r = Next s1" by simp
    moreover have "stop_imaging s1" using read_stop_good(2)[OF rs] True by simp
    ultimately show ?thesis using t1 True
      by (intro exI[where x = 0]) (simp add: polls_def)
  next
    case False
    show ?thesis
    proof (cases "gcommand env RP s1")
      case (Inl e)
      obtain msg s2 where e: "e = (msg, s2)" by (cases e)
      with 1(2) rs False Inl have r: "r = Raise msg s2" by simp
      have "gantry env (trace s @ [ReadStop False]) = Inl msg"
        using gcommand_reply(2)[of env RP s1 msg s2] Inl e t1 False by simp
      moreover have "trace s2 = trace s @ [ReadStop False, GCommand RP]"
        using gcommand_frame(1)[of env RP s1 msg s2] Inl e t1 False by simp
      ultimately show ?thesis
        by (intro exI[where x = 0]) (simp add: polls_def r)
    next
      case (Inr e)
      obtain pos s2 where e: "e = (pos, s2)" by (cases e)
      have rep: "gantry env (trace s @ [ReadStop False]) = Inr pos"
        using gcommand_reply(1)[of env RP s1 pos s2] Inr e t1 False by simp
      have t2: "trace s2 = trace s @ [ReadStop False, GCommand RP]"
        using gcommand_frame(1)[of env RP s1 pos s2] Inr e t1 False by simp
      show ?thesis
      proof (cases "pos = target")
        case True
        with 1(2) rs False Inr e have "r = Next s2" by simp
        with rep t2 True show ?thesis
          by (intro exI[where x = 0]) (simp add: polls_def)
      next
        case ne: False
        with 1(2) rs False Inr e have rec: "wait_position env target (sleep 250 s2) = Some r"
          by simp
        have t3: "trace (sleep 250 s2) = trace s @ polls 1"
          using t2 by (simp add: sleep_def emit_def polls_def)
        have pp: "(trace s @ polls 1) @ polls k @ X = trace s @ polls (Suc k) @ X" for k X
          by (simp add: polls_def)
        have "\<exists>n. (\<forall>i<n. \<exists>reply. gantry env (trace s @ polls (Suc i) @ [ReadStop False])
                             = Inr reply \<and> reply \<noteq> target) \<and>
             (case r of
                Next s' \<Rightarrow>
                  (stop_imaging s' \<and> trace s' = trace s @ polls (Suc n) @ [ReadStop True]) \<or>
                  (gantry env (trace s @ polls (Suc n) @ [ReadStop False]) = Inr target \<and>
                   trace s' = trace s @ polls (Suc n) @ [ReadStop False, GCommand RP])
              | Raise msg s' \<Rightarrow>
                  gantry env (trace s @ polls (Suc n) @ [ReadStop False]) = Inl msg \<and>
                  trace s' = trace s @ polls (Suc n) @ [ReadStop False, GCommand RP]
              | Break s' \<Rightarrow> False)"
          using 1(1)[OF rec] unfolding t3 pp .
        then obtain n where
          n1: "\<forall>i<n. \<exists>reply. gantry env (trace s @ polls (Suc i) @ [ReadStop False]) = Inr reply \<and>
                         reply \<noteq> target"
          and n2: "case r of
                Next s' \<Rightarrow>
                  (stop_imaging s' \<and> trace s' = trace s @ polls (Suc n) @ [ReadStop True]) \<or>
                  (gantry env (trace s @ polls (Suc n) @ [ReadStop False]) = Inr target \<and>
                   trace s' = trace s @ polls (Suc n) @ [ReadStop False, GCommand RP])
              | Raise msg s' \<Rightarrow>
                  gantry env (trace s @ polls (Suc n) @ [ReadStop False]) = Inl msg \<and>
                  trace s' = trace s @ polls (Suc n) @ [ReadStop False, GCommand RP]
              | Break s' \<Rightarrow> False"
          by blast
        have "\<exists>reply. gantry env (trace s @ polls i @ [ReadStop False]) = Inr reply \<and>
                 reply \<noteq> target" if "i < Suc n" for i
        proof (cases i)
          case 0
          with rep ne show ?thesis by (simp add: polls_def)
        next
          case (Suc j)
          with that n1 show ?thesis by simp
        qed
        with n2 show ?thesis by (intro exI[where x = "Suc n"]) simp
      qed
    qed
  qed
qed

text \<open>The loops.\<close>

lemma run_post_cong:
  assumes "run_post s0 tg r" "trace s0 = trace s" "x_limit s0 = x_limit s"
    "y_limit s0 = y_limit s" "image_count s0 = image_count s"
    "camera_connected s0 = camera_connected s"
  shows "run_post s tg r"
proof -
  have "added s0 x = added s x" for x by (simp add: added_def assms(2))
  then show ?thesis using assms by (simp add: run_post_def cong: flow.case_cong)
qed

lemma run_post_kept:
  assumes "kept s s'" "state_of r = s'" "\<And>s''. r \<noteq> Next s''"
  shows "run_post s tg r"
  using assms by (cases r) (auto simp: run_post_def kept_def)

lemma run_post_moved:
  assumes "trace s' = trace s @ n" "moves n = [t]" "fst t \<le> x_limit s" "snd t \<le> y_limit s"
    "camera_connected s' = camera_connected s"
    "state_of r = s'"
    "case r of Next s'' \<Rightarrow> image_count s' = image_count s + 1
             | _ \<Rightarrow> image_count s' \<le> image_count s + 1"
  shows "run_post s [t] r"
proof -
  have "added s s' = n" using assms(1) by (rule added_append)
  then show ?thesis using assms by (cases r) (simp_all add: run_post_def)
qed

lemma keptD:
  assumes "kept s s'"
  shows "trace s' = trace s @ added s s'" "moves (added s s') = []"
    "aim_x s' = aim_x s" "aim_y s' = aim_y s" "image_count s' = image_count s"
    "camera_connected s' = camera_connected s"
  using assms by (simp_all add: kept_def)

lemma goodD_limits:
  assumes "good env s r"
  shows "x_limit (state_of r) = x_limit s" "y_limit (state_of r) = y_limit s"
  using assms by (simp_all add: good_def)

lemma visit_good:
  assumes "visit env xi y x s = Some r"
  shows "good env s r \<and> run_post s [(next_aim_x xi y x (aim_x s), aim_y s)] r \<and>
         aim_x (state_of r) = next_aim_x xi y x (aim_x s) \<and> aim_y (state_of r) = aim_y s \<and>
         (\<forall>s'. r = Next s' \<longrightarrow>
            (\<exists>h rest. trace s' = h @ GCommand RP # rest \<and> length (trace s) \<le> length h \<and>
                      gantry env h = Inr (pos_str (aim_x s') (aim_y s')))) \<and>
         (\<not> stop_imaging s \<and> \<not> ui_stopped env (length (trace s)) \<and>
          next_aim_x xi y x (aim_x s) \<le> x_limit s \<and> aim_y s \<le> y_limit s \<longrightarrow>
            moves (added s (state_of r)) = [(next_aim_x xi y x (aim_x s), aim_y s)])"
proof -
  define s0 where "s0 = (if x \<noteq> 0
              then (if y mod 2 = 0 then s\<lparr>aim_x := aim_x s + xi\<rparr>
                    else s\<lparr>aim_x := aim_x s - xi\<rparr>)
              else s)"
  define t where "t = (next_aim_x xi y x (aim_x s), aim_y s)"
  have f0: "trace s0 = trace s" "x_limit s0 = x_limit s" "y_limit s0 = y_limit s"
    "stop_imaging s0 = stop_imaging s" "image_count s0 = image_count s"
    "camera_connected s0 = camera_connected s" "aim_y s0 = aim_y s"
    "aim_x s0 = next_aim_x xi y x (aim_x s)"
    by (simp_all add: s0_def next_aim_x_def)
  obtain stop s1 where rs: "read_stop env s0 = (stop, s1)" by (cases "read_stop env s0")
  note g1 = read_stop_good(1)[OF rs] and k1 = kept_read_stop[OF rs]
  note a1 = keptD(3,4)[OF k1]
  have unf: "visit env xi y x s =
        (if stop then Some (Break s1)
          else if aim_x s1 > x_limit s1 \<or> aim_y s1 > y_limit s1
          then Some (Break (s1\<lparr>status_var :=
                                  ''Position '' @ str_nat x @ '','' @ str_nat y
                                    @ '' exceeds safety limits - stopping sequence'',
                                stop_imaging := True\<rparr>))
          else (case gcommand env (PA (aim_x s1) (aim_y s1)) s1 of
                  Inl (msg, s2) \<Rightarrow> Some (Raise msg s2)
                | Inr (reply, s2) \<Rightarrow>
                    (case wait_position env (pos_str (aim_x s2) (aim_y s2))
                            (s2\<lparr>status_var :=
                                  ''Moving to position '' @ str_nat x @ '','' @ str_nat y\<rparr>) of
                       None \<Rightarrow> None
                     | Some (Raise msg s3) \<Rightarrow> Some (Raise msg s3)
                     | Some r \<Rightarrow>
                         (case read_stop env (state_of r) of
                            (stop', s4) \<Rightarrow>
                              if stop' then Some (Break s4)
                              else (case capture env y x s4 of
                                      None \<Rightarrow> None
                                    | Some s5 \<Rightarrow> Some (Next s5))))))"
    unfolding visit_def s0_def[symmetric] rs by simp
  define V5 where "V5 = (\<forall>s'. r = Next s' \<longrightarrow>
            (\<exists>h rest. trace s' = h @ GCommand RP # rest \<and> length (trace s0) \<le> length h \<and>
                      gantry env h = Inr (pos_str (aim_x s') (aim_y s'))))"
  define V6 where "V6 = (\<not> stop_imaging s0 \<and> \<not> ui_stopped env (length (trace s0)) \<and>
          fst t \<le> x_limit s0 \<and> snd t \<le> y_limit s0 \<longrightarrow> moves (added s0 (state_of r)) = [t])"
  have "good env s0 r \<and> run_post s0 [t] r \<and> aim_x (state_of r) = aim_x s0 \<and>
        aim_y (state_of r) = aim_y s0 \<and> V5 \<and> V6"
  proof (cases stop)
    case True
    with assms unf have r: "r = Break s1" by simp
    have "stop_imaging s1" using read_stop_good(2)[OF rs] True by simp
    with g1 have "good env s0 r" unfolding r by (rule good_break)
    moreover have "run_post s0 [t] r" using k1 by (rule run_post_kept) (simp_all add: r)
    moreover have V5 by (simp add: V5_def r)
    moreover have V6 using True read_stop_good(9)[OF rs] by (auto simp: V6_def)
    ultimately show ?thesis using a1 by (simp add: r)
  next
    case False
    then have ns1: "\<not> stop_imaging s1" using read_stop_good(2)[OF rs] by simp
    show ?thesis
    proof (cases "aim_x s1 > x_limit s1 \<or> aim_y s1 > y_limit s1")
      case True
      define s1' where "s1' = s1\<lparr>status_var :=
                                  ''Position '' @ str_nat x @ '','' @ str_nat y
                                    @ '' exceeds safety limits - stopping sequence'',
                                stop_imaging := True\<rparr>"
      from assms unf False True have r: "r = Break s1'" by (simp add: s1'_def)
      have "good env s0 (Next s1')" using g1 by (rule good_update) (simp_all add: s1'_def)
      then have "good env s0 r" unfolding r by (rule good_break) (simp add: s1'_def)
      moreover have "kept s1 s1'" by (rule kept_refl) (simp_all add: s1'_def)
      with k1 have k: "kept s0 s1'" by (rule kept_trans)
      then have "run_post s0 [t] r" by (rule run_post_kept) (simp_all add: r)
      moreover have V5 by (simp add: V5_def r)
      moreover have "x_limit s1 = x_limit s0" "y_limit s1 = y_limit s0"
        using goodD_limits[OF g1] by simp_all
      then have V6 using True a1 f0 by (auto simp: V6_def t_def)
      ultimately show ?thesis using keptD(3,4)[OF k] by (simp add: r)
    next
      case inside: False
      have lim1: "x_limit s1 = x_limit s0" "y_limit s1 = y_limit s0"
        using goodD_limits[OF g1] by simp_all
      have tin: "fst t \<le> x_limit s0" "snd t \<le> y_limit s0"
        using inside a1 lim1 f0 by (simp_all add: t_def)
      have t1: "(aim_x s1, aim_y s1) = t" using a1 f0 by (simp add: t_def)
      define n0 where "n0 = added s0 s1 @ [GCommand (PA (aim_x s1) (aim_y s1))]"
      have mv0: "moves n0 = [t]" unfolding n0_def using keptD(2)[OF k1] t1 by simp
      have moved: "run_post s0 [t] r' \<and> moves (added s0 s') = [t]"
        if "trace s' = trace s0 @ (n0 @ m)" "moves m = []" "state_of r' = s'"
          "camera_connected s' = camera_connected s0"
          "case r' of Next s'' \<Rightarrow> image_count s' = image_count s0 + 1
                    | _ \<Rightarrow> image_count s' \<le> image_count s0 + 1" for s' r' m
      proof
        show "run_post s0 [t] r'"
        proof (rule run_post_moved[where s' = s' and n = "n0 @ m"])
          show "trace s' = trace s0 @ n0 @ m" using that(1) by simp
          show "moves (n0 @ m) = [t]" using mv0 that(2) by simp
        qed (use tin that in simp_all)
        have "added s0 s' = n0 @ m" using that(1) by (rule added_append)
        then show "moves (added s0 s') = [t]" using mv0 that(2) by simp
      qed
      show ?thesis
      proof (cases "gcommand env (PA (aim_x s1) (aim_y s1)) s1")
        case (Inl e)
        obtain msg s2 where e: "e = (msg, s2)" by (cases e)
        from assms unf False inside Inl e have r: "r = Raise msg s2" by simp
        note fr = gcommand_frame[of env "PA (aim_x s1) (aim_y s1)" s1 msg s2]
        have g2: "good env s1 (Raise msg s2)" using gcommand_good(2)[OF ns1] Inl e by simp
        have "trace s2 = trace s0 @ (n0 @ [])"
          using fr(1) keptD(1)[OF k1] Inl e by (simp add: n0_def)
        then have "run_post s0 [t] r \<and> moves (added s0 s2) = [t]"
          by (rule moved) (use fr(5,8) keptD(5,6)[OF k1] Inl e in \<open>simp_all add: r\<close>)
        then have "run_post s0 [t] r" and V6 by (simp_all add: V6_def r)
        moreover have V5 by (simp add: V5_def r)
        moreover have "good env s0 r" unfolding r using g1 g2 by (rule good_trans)
        ultimately show ?thesis using fr(3,4) a1 Inl e by (simp add: r)
      next
        case (Inr e)
        obtain reply s2 where e: "e = (reply, s2)" by (cases e)
        note fr = gcommand_frame[of env "PA (aim_x s1) (aim_y s1)" s1 reply s2]
        have g2: "good env s1 (Next s2)" using gcommand_good(1)[OF ns1] Inr e by simp
        define s2' where "s2' = s2\<lparr>status_var :=
                                  ''Moving to position '' @ str_nat x @ '','' @ str_nat y\<rparr>"
        have g2': "good env s0 (Next s2')"
          using good_trans[OF g1 g2] by (rule good_update) (simp_all add: s2'_def)
        have tr2: "trace s2' = trace s0 @ n0"
          using fr(1) keptD(1)[OF k1] Inr e by (simp add: s2'_def n0_def)
        have f2: "aim_x s2' = aim_x s0" "aim_y s2' = aim_y s0" "image_count s2' = image_count s0"
          "camera_connected s2' = camera_connected s0"
          using fr(3,4,5,8) keptD(3-6)[OF k1] Inr e by (simp_all add: s2'_def)
        text \<open>Whatever follows the move adds no other.\<close>
        have after: "run_post s0 [t] r' \<and> moves (added s0 s') = [t]"
          if "kept s2' s'" "state_of r' = s'"
          "case r' of Next s'' \<Rightarrow> image_count s' = image_count s2' + 1
                    | _ \<Rightarrow> image_count s' \<le> image_count s2' + 1" for s' r'
        proof (rule moved[where s' = s' and m = "added s2' s'"])
          show "trace s' = trace s0 @ n0 @ added s2' s'"
            using keptD(1)[OF that(1)] tr2 by simp
          show "moves (added s2' s') = []" using that(1) by (rule keptD)
          show "case r' of Next s'' \<Rightarrow> image_count s' = image_count s0 + 1
                    | _ \<Rightarrow> image_count s' \<le> image_count s0 + 1"
            using that(3) f2 by (simp split: flow.splits)
        qed (use that(2) f2 keptD(6)[OF that(1)] in simp_all)
        have unf2: "Some r = (case wait_position env (pos_str (aim_x s2) (aim_y s2)) s2' of
                       None \<Rightarrow> None
                     | Some (Raise msg s3) \<Rightarrow> Some (Raise msg s3)
                     | Some r \<Rightarrow>
                         (case read_stop env (state_of r) of
                            (stop', s4) \<Rightarrow>
                              if stop' then Some (Break s4)
                              else (case capture env y x s4 of
                                      None \<Rightarrow> None
                                    | Some s5 \<Rightarrow> Some (Next s5))))"
          using assms unf False inside Inr e by (simp add: s2'_def)
        then obtain w where w: "wait_position env (pos_str (aim_x s2) (aim_y s2)) s2' = Some w"
          by (cases "wait_position env (pos_str (aim_x s2) (aim_y s2)) s2'") simp_all
        from wait_position_good[OF w] have gw: "good env s2' w" and kw: "kept s2' (state_of w)"
          and nb: "\<And>s'. w \<noteq> Break s'" by simp_all
        show ?thesis
        proof (cases w)
          case (Raise msg s3)
          with unf2 w have r: "r = Raise msg s3" by simp
          have "good env s0 r" using good_trans[OF g2' gw] by (simp add: r Raise)
          moreover have "run_post s0 [t] r \<and> moves (added s0 (state_of w)) = [t]" using kw
            by (rule after) (simp_all add: r Raise keptD(5)[OF kw, unfolded Raise, simplified])
          then have "run_post s0 [t] r" and V6 by (simp_all add: V6_def r Raise)
          moreover have V5 by (simp add: V5_def r)
          ultimately show ?thesis using keptD(3,4)[OF kw] f2 by (simp add: r Raise)
        next
          case (Break s3)
          with nb[of s3] show ?thesis by blast
        next
          case (Next s3)
          obtain stop' s4 where rs4: "read_stop env s3 = (stop', s4)"
            by (cases "read_stop env s3")
          note g4 = read_stop_good(1)[OF rs4] and k4 = kept_read_stop[OF rs4]
          have g04: "good env s0 (Next s4)"
            using good_trans[OF good_trans[OF g2' gw[unfolded Next]] g4] .
          have k24: "kept s2' s4" using kw[unfolded Next] k4 by (simp add: kept_trans)
          show ?thesis
          proof (cases stop')
            case True
            with unf2 w Next rs4 have r: "r = Break s4" by simp
            have "stop_imaging s4" using read_stop_good(2)[OF rs4] True by simp
            with g04 have "good env s0 r" unfolding r by (rule good_break)
            moreover have "run_post s0 [t] r \<and> moves (added s0 s4) = [t]" using k24
              by (rule after) (simp_all add: r keptD(5)[OF k24])
            then have "run_post s0 [t] r" and V6 by (simp_all add: V6_def r)
            moreover have V5 by (simp add: V5_def r)
            ultimately show ?thesis using keptD(3,4)[OF k24] f2 by (simp add: r)
          next
            case ns: False
            then have ns4: "\<not> stop_imaging s4" using read_stop_good(2)[OF rs4] by simp
            from unf2 w Next rs4 ns obtain s5 where c: "capture env y x s4 = Some s5"
              and r: "r = Next s5"
              by (cases "capture env y x s4") simp_all
            note cg = capture_good[OF c ns4]
            have tr5: "trace s5 = trace s2' @ (added s2' s4 @ added s4 s5)"
              using cg(2) keptD(1)[OF k24] by simp
            have "run_post s0 [t] r \<and> moves (added s0 s5) = [t]"
            proof (rule moved[where s' = s5 and m = "added s2' s4 @ added s4 s5"])
              show "trace s5 = trace s0 @ n0 @ added s2' s4 @ added s4 s5"
                using tr5 tr2 by simp
              show "moves (added s2' s4 @ added s4 s5) = []"
                using cg(3) keptD(2)[OF k24] by simp
            qed (use cg(6,7) keptD(5,6)[OF k24] f2 in \<open>simp_all add: r\<close>)
            then have "run_post s0 [t] r" and V6 by (simp_all add: V6_def r)
            moreover have V5
            proof -
              from wait_position_polls[OF w] obtain n where
                "(stop_imaging s3 \<and> trace s3 = trace s2' @ polls n @ [ReadStop True]) \<or>
                  (gantry env (trace s2' @ polls n @ [ReadStop False])
                     = Inr (pos_str (aim_x s2) (aim_y s2)) \<and>
                   trace s3 = trace s2' @ polls n @ [ReadStop False, GCommand RP])"
                by (auto simp: Next)
              moreover have "\<not> stop_imaging s3" using read_stop_good(9)[OF rs4] ns by simp
              ultimately have h: "gantry env (trace s2' @ polls n @ [ReadStop False])
                     = Inr (pos_str (aim_x s2) (aim_y s2))"
                "trace s3 = trace s2' @ polls n @ [ReadStop False, GCommand RP]"
                by auto
              have "trace s5 = (trace s2' @ polls n @ [ReadStop False])
                       @ GCommand RP # (ReadStop stop' # added s4 s5)"
                using cg(2) read_stop_good(3)[OF rs4] h(2) by simp
              moreover have "length (trace s0) \<le> length (trace s2' @ polls n @ [ReadStop False])"
                using tr2 by simp
              moreover have "aim_x s5 = aim_x s2" "aim_y s5 = aim_y s2"
                using cg(4,5) keptD(3,4)[OF k24] by (simp_all add: s2'_def)
              ultimately have "\<exists>h rest. trace s5 = h @ GCommand RP # rest \<and>
                  length (trace s0) \<le> length h \<and>
                  gantry env h = Inr (pos_str (aim_x s5) (aim_y s5))"
                using h(1) by (metis (no_types))
              then show ?thesis unfolding V5_def r by simp
            qed
            moreover have "good env s0 r" unfolding r using g04 cg(1) by (rule good_trans)
            ultimately show ?thesis using cg(4,5) keptD(3,4)[OF k24] f2 by (simp add: r)
          qed
        qed
      qed
    qed
  qed
  then have "good env s0 r" "run_post s0 [t] r" "aim_x (state_of r) = aim_x s0"
    "aim_y (state_of r) = aim_y s0" V5 V6 by simp_all
  moreover have "added s0 z = added s z" for z by (simp add: added_def f0(1))
  ultimately show ?thesis
    using good_cong[OF \<open>good env s0 r\<close> f0(1-4)]
      run_post_cong[OF \<open>run_post s0 [t] r\<close> f0(1-3,5,6)] f0
    unfolding V5_def V6_def by (simp add: t_def)
qed

lemma run_post_nil: "run_post s [] (Next s)"
  by (simp add: run_post_def added_def)

lemma run_post_weaken:
  assumes "run_post s tg1 r" "\<And>s'. r \<noteq> Next s'"
  shows "run_post s (tg1 @ tg2) r"
  using assms by (cases r) (auto simp: run_post_def)

lemma run_post_trans:
  assumes "run_post s tg1 (Next s1)" "run_post s1 tg2 r"
    and "trace s1 = trace s @ added s s1"
    and "trace (state_of r) = trace s1 @ added s1 (state_of r)"
    and "x_limit s1 = x_limit s" "y_limit s1 = y_limit s"
  shows "run_post s (tg1 @ tg2) r"
proof -
  have "trace (state_of r) = trace s @ (added s s1 @ added s1 (state_of r))"
    using assms(3,4) by simp
  then have a: "added s (state_of r) = added s s1 @ added s1 (state_of r)"
    by (rule added_append)
  from assms(1) have 1: "moves (added s s1) = tg1" "image_count s1 = image_count s + length tg1"
    "camera_connected s1 = camera_connected s"
    "list_all (\<lambda>t. fst t \<le> x_limit s \<and> snd t \<le> y_limit s) tg1"
    by (auto simp: run_post_def)
  show ?thesis
    using assms(2) a 1 assms(5,6) by (cases r) (auto simp: run_post_def)
qed

lemma run_post_after:
  assumes "run_post s tg r" "kept (state_of r) s2"
    and "trace (state_of r) = trace s @ added s (state_of r)"
    and "state_of r' = s2" "\<And>s'. r' = Next s' \<Longrightarrow> \<exists>s''. r = Next s''"
  shows "run_post s tg r'"
proof -
  have "trace s2 = trace s @ (added s (state_of r) @ added (state_of r) s2)"
    using assms(3) keptD(1)[OF assms(2)] by simp
  then have a: "added s s2 = added s (state_of r) @ added (state_of r) s2"
    by (rule added_append)
  have m: "moves (added s s2) = moves (added s (state_of r))"
    unfolding a using keptD(2)[OF assms(2)] by simp
  show ?thesis
  proof (cases r')
    case (Next s')
    with assms(5) obtain s'' where "r = Next s''" by blast
    with assms(1,4) Next m keptD(5,6)[OF assms(2)] show ?thesis
      by (auto simp: run_post_def)
  qed (use assms(1,4) m keptD(5,6)[OF assms(2)] in \<open>simp_all add: run_post_def\<close>)
qed

lemma goodD_trace: "good env s r \<Longrightarrow> trace (state_of r) = trace s @ added s (state_of r)"
  by (simp add: good_def)

lemma row_loop_good:
  assumes "row_loop env xi y xs s = Some r"
  shows "good env s r \<and> run_post s (row_targets xi y xs (aim_x s) (aim_y s)) r \<and>
         aim_y (state_of r) = aim_y s \<and>
         (\<forall>s'. r = Next s' \<longrightarrow> aim_x s' = row_end xi y xs (aim_x s))"
  using assms
proof (induction xs arbitrary: s)
  case Nil
  then show ?case by (auto simp: good_refl run_post_nil)
next
  case (Cons x xs)
  from Cons.prems obtain v where v: "visit env xi y x s = Some v"
    by (cases "visit env xi y x s") simp_all
  from visit_good[OF v] have gv: "good env s v"
    and pv: "run_post s [(next_aim_x xi y x (aim_x s), aim_y s)] v"
    and av: "aim_x (state_of v) = next_aim_x xi y x (aim_x s)" "aim_y (state_of v) = aim_y s"
    by simp_all
  show ?case
  proof (cases v)
    case (Next s1)
    with Cons.prems v have rec: "row_loop env xi y xs s1 = Some r" by simp
    from Cons.IH[OF rec] have ih: "good env s1 r"
      "run_post s1 (row_targets xi y xs (aim_x s1) (aim_y s1)) r"
      "aim_y (state_of r) = aim_y s1"
      "\<forall>s'. r = Next s' \<longrightarrow> aim_x s' = row_end xi y xs (aim_x s1)"
      by simp_all
    have "good env s r" using gv[unfolded Next] ih(1) by (rule good_trans)
    moreover have "run_post s ([(next_aim_x xi y x (aim_x s), aim_y s)]
                     @ row_targets xi y xs (aim_x s1) (aim_y s1)) r"
      using pv[unfolded Next] ih(2) goodD_trace[OF gv[unfolded Next], simplified]
        goodD_trace[OF ih(1)] goodD_limits[OF gv[unfolded Next], simplified]
      by (rule run_post_trans)
    ultimately show ?thesis using ih(3,4) av by (simp add: Next)
  next
    case (Break s1)
    with Cons.prems v have r: "r = v" by simp
    have "run_post s ([(next_aim_x xi y x (aim_x s), aim_y s)]
             @ row_targets xi y xs (next_aim_x xi y x (aim_x s)) (aim_y s)) v"
      using pv by (rule run_post_weaken) (simp add: Break)
    with gv av show ?thesis by (simp add: r Break)
  next
    case (Raise msg s1)
    with Cons.prems v have r: "r = v" by simp
    have "run_post s ([(next_aim_x xi y x (aim_x s), aim_y s)]
             @ row_targets xi y xs (next_aim_x xi y x (aim_x s)) (aim_y s)) v"
      using pv by (rule run_post_weaken) (simp add: Raise)
    with gv av show ?thesis by (simp add: r Raise)
  qed
qed

lemma good_stopped_break: "good env s (Break s') \<Longrightarrow> stop_imaging s'"
  by (simp add: good_def stopped_break_def)

lemma grid_loop_good:
  assumes "grid_loop env sx sy xi yi nx ys s = Some r"
  shows "good env s r \<and> run_post s (grid_targets sx sy xi yi nx ys (aim_x s) (aim_y s)) r"
  using assms
proof (induction ys arbitrary: s)
  case Nil
  then show ?case by (auto simp: good_refl run_post_nil)
next
  case (Cons y ys)
  define s0 where "s0 = (if y = 0 then s\<lparr>aim_x := sx, aim_y := sy\<rparr>
                         else s\<lparr>aim_y := aim_y s + yi\<rparr>)"
  define ax where "ax = (if y = 0 then sx else aim_x s)"
  define ay where "ay = (if y = 0 then sy else aim_y s + yi)"
  have f0: "trace s0 = trace s" "x_limit s0 = x_limit s" "y_limit s0 = y_limit s"
    "stop_imaging s0 = stop_imaging s" "image_count s0 = image_count s"
    "camera_connected s0 = camera_connected s" "aim_x s0 = ax" "aim_y s0 = ay"
    by (simp_all add: s0_def ax_def ay_def)
  have unf: "grid_loop env sx sy xi yi nx (y # ys) s =
     (case row_loop env xi y [0..<nx] s0 of
        None \<Rightarrow> None
      | Some (Raise msg s1) \<Rightarrow> Some (Raise msg s1)
      | Some r \<Rightarrow>
          (case read_stop env (state_of r) of
             (stop, s2) \<Rightarrow>
               if stop then Some (Break s2) else grid_loop env sx sy xi yi nx ys s2))"
    unfolding s0_def by simp
  have tg: "grid_targets sx sy xi yi nx (y # ys) (aim_x s) (aim_y s) =
      row_targets xi y [0..<nx] ax ay
        @ grid_targets sx sy xi yi nx ys (row_end xi y [0..<nx] ax) ay"
    by (simp add: ax_def ay_def)
  from Cons.prems unf obtain v where v: "row_loop env xi y [0..<nx] s0 = Some v"
    by (cases "row_loop env xi y [0..<nx] s0") simp_all
  from row_loop_good[OF v] f0 have gv: "good env s0 v"
    and pv: "run_post s0 (row_targets xi y [0..<nx] ax ay) v"
    and av: "aim_y (state_of v) = ay"
      "\<forall>s'. v = Next s' \<longrightarrow> aim_x s' = row_end xi y [0..<nx] ax"
    by simp_all
  have "good env s0 r \<and> run_post s0 (row_targets xi y [0..<nx] ax ay
        @ grid_targets sx sy xi yi nx ys (row_end xi y [0..<nx] ax) ay) r"
  proof (cases "\<exists>msg s1. v = Raise msg s1")
    case True
    then obtain msg s1 where vr: "v = Raise msg s1" by blast
    with Cons.prems unf v have r: "r = v" by simp
    show ?thesis unfolding r using gv run_post_weaken[OF pv] vr by simp
  next
    case False
    define s1 where "s1 = state_of v"
    obtain stop s2 where rs: "read_stop env s1 = (stop, s2)" by (cases "read_stop env s1")
    note g2 = read_stop_good(1)[OF rs] and k2 = kept_read_stop[OF rs]
    from False have nr: "\<And>msg s'. v \<noteq> Raise msg s'" by blast
    have g1: "good env s0 (Next s1)" unfolding s1_def using gv nr by (rule good_next)
    have g02: "good env s0 (Next s2)" using g1 g2 by (rule good_trans)
    from Cons.prems unf v False rs
    have res: "(if stop then Some (Break s2) else grid_loop env sx sy xi yi nx ys s2) = Some r"
      by (cases v) (simp_all add: s1_def)
    show ?thesis
    proof (cases stop)
      case True
      with res have r: "r = Break s2" by simp
      have "stop_imaging s2" using read_stop_good(2)[OF rs] True by simp
      with g02 have "good env s0 r" unfolding r by (rule good_break)
      moreover have "run_post s0 (row_targets xi y [0..<nx] ax ay) r"
        using pv k2[unfolded s1_def] goodD_trace[OF gv]
        by (rule run_post_after) (simp_all add: r)
      then have "run_post s0 (row_targets xi y [0..<nx] ax ay
            @ grid_targets sx sy xi yi nx ys (row_end xi y [0..<nx] ax) ay) r"
        by (rule run_post_weaken) (simp add: r)
      ultimately show ?thesis by simp
    next
      case ns: False
      then have ns2: "\<not> stop_imaging s2" using read_stop_good(2)[OF rs] by simp
      have vn: "v = Next s1"
      proof (cases v)
        case (Break s')
        with gv have "stop_imaging s'" by (simp add: good_stopped_break)
        then have "stop_imaging s1" by (simp add: s1_def Break)
        then have stop using read_stop_good(9)[OF rs] by simp
        with ns show ?thesis by simp
      qed (use nr in \<open>simp_all add: s1_def\<close>)
      from res ns have rec: "grid_loop env sx sy xi yi nx ys s2 = Some r" by simp
      have a2: "aim_x s2 = row_end xi y [0..<nx] ax" "aim_y s2 = ay"
        using av vn read_stop_good(4,5)[OF rs] by simp_all
      from Cons.IH[OF rec] a2 have ih: "good env s2 r"
        "run_post s2 (grid_targets sx sy xi yi nx ys (row_end xi y [0..<nx] ax) ay) r"
        by simp_all
      have "good env s0 r" using g02 ih(1) by (rule good_trans)
      moreover have p2: "run_post s0 (row_targets xi y [0..<nx] ax ay) (Next s2)"
        using pv k2[unfolded s1_def] goodD_trace[OF gv]
        by (rule run_post_after) (simp_all add: vn)
      have "run_post s0 (row_targets xi y [0..<nx] ax ay
            @ grid_targets sx sy xi yi nx ys (row_end xi y [0..<nx] ax) ay) r"
        using p2 ih(2) goodD_trace[OF g02, simplified] goodD_trace[OF ih(1)]
          goodD_limits[OF g02, simplified]
        by (rule run_post_trans)
      ultimately show ?thesis by simp
    qed
  qed
  then have "good env s0 r" "run_post s0 (grid_targets sx sy xi yi nx (y # ys) (aim_x s) (aim_y s)) r"
    unfolding tg by simp_all
  from good_cong[OF this(1) f0(1-4)] run_post_cong[OF this(2) f0(1-3,5,6)]
  show ?case by simp
qed

section \<open>The snake path\<close>

lemma snake_col_less: "x < nx \<Longrightarrow> snake_col nx y x < nx"
  by (simp add: snake_col_def)










text \<open>The targets the loops compute are the snake path.\<close>

lemma row_targets_from:
  assumes "1 \<le> a"
  shows "row_targets xi y [a..<b] (A + (if y mod 2 = 0 then xi else - xi) * (int a - 1)) ay =
           map (\<lambda>x. (A + (if y mod 2 = 0 then xi else - xi) * int x, ay)) [a..<b]"
  using assms
proof (induction "b - a" arbitrary: a)
  case 0
  then show ?case by simp
next
  case (Suc n)
  then have ab: "a < b" by simp
  then have u: "[a..<b] = a # [Suc a..<b]" by (rule upt_conv_Cons)
  have n: "next_aim_x xi y a (A + (if y mod 2 = 0 then xi else - xi) * (int a - 1)) =
           A + (if y mod 2 = 0 then xi else - xi) * int a"
    using Suc.prems by (simp add: next_aim_x_def algebra_simps)
  have "n = b - Suc a" using Suc.hyps(2) by simp
  from Suc.hyps(1)[OF this] have ih:
    "row_targets xi y [Suc a..<b] (A + (if y mod 2 = 0 then xi else - xi) * int a) ay =
       map (\<lambda>x. (A + (if y mod 2 = 0 then xi else - xi) * int x, ay)) [Suc a..<b]"
    by simp
  show ?case unfolding u by (simp only: row_targets.simps n ih list.map)
qed

lemma row_targets_closed:
  "row_targets xi y [0..<nx] A ay =
     map (\<lambda>x. (A + (if y mod 2 = 0 then xi else - xi) * int x, ay)) [0..<nx]"
proof (cases nx)
  case 0
  then show ?thesis by simp
next
  case (Suc m)
  have u: "[0..<nx] = 0 # [1..<nx]" using Suc by (simp add: upt_conv_Cons)
  have "row_targets xi y [1..<nx] A ay =
          map (\<lambda>x. (A + (if y mod 2 = 0 then xi else - xi) * int x, ay)) [1..<nx]"
    using row_targets_from[of 1 xi y nx A ay] by simp
  then show ?thesis unfolding u by (simp add: next_aim_x_def)
qed

lemma row_end_from:
  assumes "1 \<le> a" "a \<le> b"
  shows "row_end xi y [a..<b] (A + (if y mod 2 = 0 then xi else - xi) * (int a - 1)) =
           A + (if y mod 2 = 0 then xi else - xi) * (int b - 1)"
  using assms
proof (induction "b - a" arbitrary: a)
  case 0
  then show ?case by simp
next
  case (Suc n)
  then have ab: "a < b" by simp
  then have u: "[a..<b] = a # [Suc a..<b]" by (rule upt_conv_Cons)
  have n: "next_aim_x xi y a (A + (if y mod 2 = 0 then xi else - xi) * (int a - 1)) =
           A + (if y mod 2 = 0 then xi else - xi) * (int (Suc a) - 1)"
    using Suc.prems by (simp add: next_aim_x_def algebra_simps)
  have "n = b - Suc a" using Suc.hyps(2) by simp
  from Suc.hyps(1)[OF this] ab have ih:
    "row_end xi y [Suc a..<b] (A + (if y mod 2 = 0 then xi else - xi) * (int (Suc a) - 1)) =
       A + (if y mod 2 = 0 then xi else - xi) * (int b - 1)"
    by simp
  show ?case unfolding u by (simp only: row_end.simps n ih)
qed

lemma row_end_closed:
  assumes "1 \<le> nx"
  shows "row_end xi y [0..<nx] A = A + (if y mod 2 = 0 then xi else - xi) * (int nx - 1)"
proof -
  have u: "[0..<nx] = 0 # [1..<nx]" using assms by (simp add: upt_conv_Cons)
  have "row_end xi y [1..<nx] A = A + (if y mod 2 = 0 then xi else - xi) * (int nx - 1)"
    using row_end_from[of 1 nx xi y A] assms by simp
  then show ?thesis unfolding u by (simp add: next_aim_x_def)
qed

lemma snake_row:
  assumes "1 \<le> nx"
  shows "row_targets xi y [0..<nx] (row_start sx xi nx y) (sy + int y * yi) =
           map (cell_target sx sy xi yi) (map (\<lambda>x. (snake_col nx y x, y)) [0..<nx])"
proof -
  have "(row_start sx xi nx y + (if y mod 2 = 0 then xi else - xi) * int x, sy + int y * yi) =
          cell_target sx sy xi yi (snake_col nx y x, y)" if "x < nx" for x
  proof (cases "even y")
    case True
    then show ?thesis
      by (simp add: row_start_def cell_target_def snake_col_def even_iff_mod_2_eq_zero)
  next
    case False
    moreover have "int (nx - 1 - x) = int nx - 1 - int x" using that by simp
    ultimately show ?thesis
      by (simp add: row_start_def cell_target_def snake_col_def even_iff_mod_2_eq_zero
          algebra_simps)
  qed
  then show ?thesis unfolding row_targets_closed by simp
qed

lemma snake_row_end:
  assumes "1 \<le> nx"
  shows "row_end xi y [0..<nx] (row_start sx xi nx y) = row_start sx xi nx (Suc y)"
proof (cases "even y")
  case True
  then have "y mod 2 = 0" by (simp add: even_iff_mod_2_eq_zero)
  with True show ?thesis unfolding row_end_closed[OF assms] by (simp add: row_start_def)
next
  case False
  then have "y mod 2 \<noteq> 0" by (simp add: even_iff_mod_2_eq_zero)
  with False show ?thesis
    unfolding row_end_closed[OF assms] by (simp add: row_start_def algebra_simps)
qed

lemma grid_targets_from:
  assumes "1 \<le> nx" "1 \<le> a"
  shows "grid_targets sx sy xi yi nx [a..<b] (row_start sx xi nx a) (sy + (int a - 1) * yi) =
           map (cell_target sx sy xi yi)
             (concat (map (\<lambda>y. map (\<lambda>x. (snake_col nx y x, y)) [0..<nx]) [a..<b]))"
  using assms(2)
proof (induction "b - a" arbitrary: a)
  case 0
  then show ?case by simp
next
  case (Suc n)
  then have ab: "a < b" and a0: "a \<noteq> 0" by simp_all
  then have u: "[a..<b] = a # [Suc a..<b]" by (simp add: upt_conv_Cons)
  have y: "sy + (int a - 1) * yi + yi = sy + int a * yi" by (simp add: algebra_simps)
  have "n = b - Suc a" using Suc.hyps(2) by simp
  from Suc.hyps(1)[OF this] have ih:
    "grid_targets sx sy xi yi nx [Suc a..<b] (row_start sx xi nx (Suc a)) (sy + int a * yi) =
       map (cell_target sx sy xi yi)
         (concat (map (\<lambda>y. map (\<lambda>x. (snake_col nx y x, y)) [0..<nx]) [Suc a..<b]))"
    by simp
  show ?case
    unfolding u
    by (simp only: grid_targets.simps a0 if_False y snake_row[OF assms(1)]
        snake_row_end[OF assms(1)] ih list.map concat.simps map_append)
qed

lemma grid_targets_snake:
  "grid_targets sx sy xi yi nx [0..<ny] ax ay = snake_path sx sy xi yi nx ny"
proof (cases "nx = 0")
  case True
  have "grid_targets sx sy xi yi 0 ys ax ay = []" for ys ax ay
    by (induction ys arbitrary: ax ay) simp_all
  moreover have "snake_path sx sy xi yi 0 ny = []"
    by (simp add: snake_path_def snake_cells_def)
  ultimately show ?thesis using True by simp
next
  case False
  then have nx: "1 \<le> nx" by simp
  show ?thesis
  proof (cases ny)
    case 0
    then show ?thesis by (simp add: snake_path_def snake_cells_def)
  next
    case (Suc m)
    have u: "[0..<ny] = 0 # [1..<ny]" using Suc by (simp add: upt_conv_Cons)
    have r0: "row_targets xi 0 [0..<nx] sx sy =
                map (cell_target sx sy xi yi) (map (\<lambda>x. (snake_col nx 0 x, 0)) [0..<nx])"
      using snake_row[OF nx, of xi 0 sx sy yi] by (simp add: row_start_def)
    have e0: "row_end xi 0 [0..<nx] sx = row_start sx xi nx 1"
      using snake_row_end[OF nx, of xi 0 sx] by (simp add: row_start_def)
    have rest: "grid_targets sx sy xi yi nx [1..<ny] (row_start sx xi nx 1) sy =
           map (cell_target sx sy xi yi)
             (concat (map (\<lambda>y. map (\<lambda>x. (snake_col nx y x, y)) [0..<nx]) [1..<ny]))"
      using grid_targets_from[OF nx, of 1 sx sy xi yi ny] by simp
    show ?thesis
      unfolding u snake_path_def snake_cells_def
      by (simp only: grid_targets.simps if_True refl r0 e0 rest list.map concat.simps map_append)
  qed
qed

section \<open>The whole sequence\<close>

lemma quiet_prefix:
  "ReadStop True \<notin> set a \<Longrightarrow> quiet_after_stop (a @ b) = quiet_after_stop b"
  by (induction a) auto

lemma imaging_tail:
  assumes "(case wait_position env (pos_str sx sy) s2 of
                None \<Rightarrow> None
              | Some (Raise msg s3) \<Rightarrow> Some (Raise msg s3)
              | Some r \<Rightarrow>
                  (case read_stop env (state_of r) of
                     (stop, s4) \<Rightarrow>
                       if stop
                       then Some (Break (s4\<lparr>status_var := ''Imaging sequence stopped'',
                                             is_imaging := False\<rparr>))
                       else (case grid_loop env sx sy xi yi (nat nx) [0..<nat ny]
                                    (s4\<lparr>status_var := ''Imaging sequence started'',
                                        image_count := 0\<rparr>) of
                               None \<Rightarrow> None
                             | Some (Raise msg s5) \<Rightarrow> Some (Raise msg s5)
                             | Some r' \<Rightarrow>
                                 (case read_stop env (state_of r') of
                                    (stop', s6) \<Rightarrow>
                                      Some (Next (s6\<lparr>status_var :=
                                                       (if \<not> stop'
                                                        then ''Imaging sequence complete - ''
                                                               @ str_nat (image_count s6)
                                                               @ '' positions captured''
                                                        else ''Imaging sequence stopped''),
                                                     is_imaging := False\<rparr>)))))) = Some r"
  shows "good env s2 r \<and>
         seq_post s2 (snake_path sx sy xi yi (nat nx) (nat ny))
           (moves (added s2 (state_of r))) r"
proof -
  let ?P = "snake_path sx sy xi yi (nat nx) (nat ny)"
  from assms obtain w where w: "wait_position env (pos_str sx sy) s2 = Some w"
    by (cases "wait_position env (pos_str sx sy) s2") simp_all
  from wait_position_good[OF w] have gw: "good env s2 w" and kw: "kept s2 (state_of w)"
    and nb: "\<And>s'. w \<noteq> Break s'" by simp_all
  show ?thesis
  proof (cases "\<exists>msg s3. w = Raise msg s3")
    case True
    then obtain msg s3 where wr: "w = Raise msg s3" by blast
    with assms w have r: "r = w" by simp
    show ?thesis
      unfolding r using gw keptD(2,5)[OF kw] by (simp add: seq_post_def wr)
  next
    case False
    then have nr: "\<And>msg s'. w \<noteq> Raise msg s'" by blast
    define s3 where "s3 = state_of w"
    obtain stop s4 where rs: "read_stop env s3 = (stop, s4)" by (cases "read_stop env s3")
    note g4 = read_stop_good(1)[OF rs] and k4 = kept_read_stop[OF rs]
    have g3: "good env s2 (Next s3)" unfolding s3_def using gw nr by (rule good_next)
    have g24: "good env s2 (Next s4)" using g3 g4 by (rule good_trans)
    have k24: "kept s2 s4" using kw[folded s3_def] k4 by (rule kept_trans)
    have res: "(if stop
                then Some (Break (s4\<lparr>status_var := ''Imaging sequence stopped'',
                                      is_imaging := False\<rparr>))
                else (case grid_loop env sx sy xi yi (nat nx) [0..<nat ny]
                             (s4\<lparr>status_var := ''Imaging sequence started'',
                                 image_count := 0\<rparr>) of
                        None \<Rightarrow> None
                      | Some (Raise msg s5) \<Rightarrow> Some (Raise msg s5)
                      | Some r' \<Rightarrow>
                          (case read_stop env (state_of r') of
                             (stop', s6) \<Rightarrow>
                               Some (Next (s6\<lparr>status_var :=
                                                (if \<not> stop'
                                                 then ''Imaging sequence complete - ''
                                                        @ str_nat (image_count s6)
                                                        @ '' positions captured''
                                                 else ''Imaging sequence stopped''),
                                              is_imaging := False\<rparr>))))) = Some r"
    proof (cases w)
      case (Next x)
      with assms w rs show ?thesis by (simp add: s3_def)
    next
      case (Break x)
      with nb show ?thesis by blast
    next
      case (Raise msg x)
      with nr show ?thesis by blast
    qed
    show ?thesis
    proof (cases stop)
      case True
      define s4' where "s4' = s4\<lparr>status_var := ''Imaging sequence stopped'',
                                 is_imaging := False\<rparr>"
      from res True have r: "r = Break s4'" by (simp add: s4'_def)
      have st: "stop_imaging s4" using read_stop_good(2)[OF rs] True by simp
      have "good env s2 (Next s4')" using g24 by (rule good_update) (simp_all add: s4'_def)
      then have "good env s2 r" unfolding r by (rule good_break) (simp add: s4'_def st)
      moreover have "kept s4 s4'" by (rule kept_refl) (simp_all add: s4'_def)
      with k24 have k: "kept s2 s4'" by (rule kept_trans)
      have "seq_post s2 ?P (moves (added s2 (state_of r))) r"
        using keptD(2,5)[OF k] by (simp add: seq_post_def r s4'_def stopped_msg_def)
      ultimately show ?thesis by simp
    next
      case ns: False
      define s5 where "s5 = s4\<lparr>status_var := ''Imaging sequence started'', image_count := 0\<rparr>"
      have g25: "good env s2 (Next s5)" using g24 by (rule good_update) (simp_all add: s5_def)
      have tr5: "trace s5 = trace s2 @ added s2 s4" "moves (added s2 s4) = []"
        using keptD(1,2)[OF k24] by (simp_all add: s5_def)
      have lim5: "x_limit s5 = x_limit s2" "y_limit s5 = y_limit s2"
        using goodD_limits[OF g25] by simp_all
      from res ns obtain g where g: "grid_loop env sx sy xi yi (nat nx) [0..<nat ny] s5 = Some g"
        by (cases "grid_loop env sx sy xi yi (nat nx) [0..<nat ny] s5") (simp_all add: s5_def)
      from grid_loop_good[OF g] have gg: "good env s5 g" and pg: "run_post s5 ?P g"
        by (simp_all add: grid_targets_snake)
      have ad: "added s2 (state_of g) = added s2 s4 @ added s5 (state_of g)"
        using goodD_trace[OF gg] tr5(1) by (intro added_append) simp
      have mg: "moves (added s2 (state_of g)) = moves (added s5 (state_of g))"
        unfolding ad using tr5(2) by simp
      show ?thesis
      proof (cases "\<exists>msg s6. g = Raise msg s6")
        case True
        then obtain msg s6 where gr: "g = Raise msg s6" by blast
        with res ns g have r: "r = g" by (simp add: s5_def)
        have "good env s2 r" unfolding r using g25 gg by (rule good_trans)
        moreover have "seq_post s2 ?P (moves (added s2 (state_of r))) r"
          using pg mg lim5 unfolding r
          by (auto simp: seq_post_def run_post_def gr s5_def)
        ultimately show ?thesis by simp
      next
        case False
        then have ngr: "\<And>msg s'. g \<noteq> Raise msg s'" by blast
        define s6 where "s6 = state_of g"
        obtain stop' s7 where rs7: "read_stop env s6 = (stop', s7)"
          by (cases "read_stop env s6")
        note g7 = read_stop_good(1)[OF rs7] and k7 = kept_read_stop[OF rs7]
        define s8 where "s8 = s7\<lparr>status_var :=
                                    (if \<not> stop'
                                     then ''Imaging sequence complete - ''
                                            @ str_nat (image_count s7)
                                            @ '' positions captured''
                                     else ''Imaging sequence stopped''),
                                  is_imaging := False\<rparr>"
        have r: "r = Next s8"
        proof (cases g)
          case (Next x)
          with res ns g rs7 show ?thesis by (simp add: s5_def s6_def s8_def)
        next
          case (Break x)
          with res ns g rs7 show ?thesis by (simp add: s5_def s6_def s8_def)
        next
          case (Raise msg x)
          with ngr show ?thesis by blast
        qed
        have g6: "good env s5 (Next s6)" unfolding s6_def using gg ngr by (rule good_next)
        have "good env s2 (Next s7)" using good_trans[OF good_trans[OF g25 g6] g7] .
        then have good: "good env s2 r"
          unfolding r by (rule good_update) (simp_all add: s8_def)
        have "kept s7 s8" by (rule kept_refl) (simp_all add: s8_def)
        with k7 have k68: "kept s6 s8" by (rule kept_trans)
        have tr8: "trace s8 = trace s2 @ (added s2 s6 @ added s6 s8)"
          using keptD(1)[OF k68] goodD_trace[OF gg, folded s6_def] tr5(1) ad[folded s6_def]
          by simp
        then have "added s2 s8 = added s2 s6 @ added s6 s8" by (rule added_append)
        then have m8: "moves (added s2 s8) = moves (added s5 s6)"
          using keptD(2)[OF k68] mg[folded s6_def] by simp
        have i8: "image_count s8 = image_count s6" using keptD(5)[OF k68] by simp
        have st8: "stop_imaging s8 = stop'" using read_stop_good(2)[OF rs7] by (simp add: s8_def)
        have sv8: "status_var s8 = (if stop' then stopped_msg else complete_msg (image_count s8))"
          "\<not> is_imaging s8"
          by (simp_all add: s8_def stopped_msg_def complete_msg_def)
        have full: "moves (added s5 s6) = ?P \<and> image_count s6 = length ?P" if "\<not> stop'"
        proof (cases g)
          case (Next s')
          with pg show ?thesis by (simp add: run_post_def s6_def s5_def)
        next
          case (Break s')
          with gg have "stop_imaging s'" by (simp add: good_stopped_break)
          then have "stop_imaging s6" by (simp add: s6_def Break)
          then have stop' using read_stop_good(9)[OF rs7] by simp
          with that show ?thesis by simp
        next
          case (Raise msg s')
          with ngr show ?thesis by blast
        qed
        have part: "take (length (moves (added s5 s6))) ?P = moves (added s5 s6)"
          "list_all (\<lambda>t. fst t \<le> x_limit s2 \<and> snd t \<le> y_limit s2) (moves (added s5 s6))"
          "image_count s6 \<le> length (moves (added s5 s6))"
          using pg lim5 by (simp_all add: run_post_def s6_def s5_def)
        have "seq_post s2 ?P (moves (added s2 (state_of r))) r"
          unfolding r using part full m8 i8 st8 sv8
          by (auto simp: seq_post_def)
        with good show ?thesis by simp
      qed
    qed
  qed
qed

section \<open>The thread from its first statement\<close>

text \<open>
  The block begins with events that are plain, then commands the move to the start; what
  follows keeps the invariant of the loops.
\<close>

lemma imaging_body_post:
  assumes "imaging_body env sx sy xi yi nx ny s = Some r"
  shows "\<exists>pre new. trace (state_of r) = trace s @ pre @ GCommand (PA sx sy) # new \<and>
           list_all plain pre \<and>
           x_limit (state_of r) = x_limit s \<and> y_limit (state_of r) = y_limit s \<and>
           quiet_after_stop new \<and>
           (ReadStop True \<in> set new \<longrightarrow> stop_imaging (state_of r)) \<and>
           raise_ok env (trace s) (pre @ GCommand (PA sx sy) # new) r \<and>
           stopped_break r \<and>
           seq_post s (snake_path sx sy xi yi (nat nx) (nat ny)) (moves new) r"
proof -
  let ?P = "snake_path sx sy xi yi (nat nx) (nat ny)"
  define s0 where "s0 = s\<lparr>status_var := ''Moving to start position...''\<rparr>"
  define s1 where
    "s1 = (if camera_connected s0 then sleep 500 (control_filter env False s0) else s0)"
  have p0: "plain_step s s0" unfolding s0_def by (rule plain_step_refl) simp_all
  have "plain_step s0 s1"
  proof (cases "camera_connected s0")
    case True
    have "plain_step s0 (sleep 500 (control_filter env False s0))"
      using plain_step_control_filter plain_step_sleep by (rule plain_step_trans)
    then show ?thesis by (simp add: s1_def True)
  next
    case False
    then show ?thesis by (simp add: s1_def plain_step_refl)
  qed
  with p0 have p1: "plain_step s s1" by (rule plain_step_trans)
  define pre where "pre = added s s1"
  from p1 have t1: "trace s1 = trace s @ pre" and pl: "list_all plain pre"
    and l1: "x_limit s1 = x_limit s" "y_limit s1 = y_limit s"
    and i1: "image_count s1 = image_count s"
    by (simp_all add: plain_step_def pre_def)
  have ap: "answered env (trace s) pre" using pl by (rule answered_plain)
  have unf: "imaging_body env sx sy xi yi nx ny s =
     (case gcommand env (PA sx sy) s1 of
           Inl (msg, s2) \<Rightarrow> Some (Raise msg s2)
         | Inr (reply, s2) \<Rightarrow>
             (case wait_position env (pos_str sx sy) s2 of
                None \<Rightarrow> None
              | Some (Raise msg s3) \<Rightarrow> Some (Raise msg s3)
              | Some r \<Rightarrow>
                  (case read_stop env (state_of r) of
                     (stop, s4) \<Rightarrow>
                       if stop
                       then Some (Break (s4\<lparr>status_var := ''Imaging sequence stopped'',
                                             is_imaging := False\<rparr>))
                       else (case grid_loop env sx sy xi yi (nat nx) [0..<nat ny]
                                    (s4\<lparr>status_var := ''Imaging sequence started'',
                                        image_count := 0\<rparr>) of
                               None \<Rightarrow> None
                             | Some (Raise msg s5) \<Rightarrow> Some (Raise msg s5)
                             | Some r' \<Rightarrow>
                                 (case read_stop env (state_of r') of
                                    (stop', s6) \<Rightarrow>
                                      Some (Next (s6\<lparr>status_var :=
                                                       (if \<not> stop'
                                                        then ''Imaging sequence complete - ''
                                                               @ str_nat (image_count s6)
                                                               @ '' positions captured''
                                                        else ''Imaging sequence stopped''),
                                                     is_imaging := False\<rparr>)))))))"
    unfolding imaging_body_def Let_def s0_def s1_def ..
  show ?thesis
  proof (cases "gcommand env (PA sx sy) s1")
    case (Inl a)
    obtain msg s2 where a: "a = (msg, s2)" by (cases a)
    have g: "gcommand env (PA sx sy) s1 = Inl (msg, s2)" using Inl a by simp
    then have fr: "trace s2 = trace s1 @ [GCommand (PA sx sy)]"
      "x_limit s2 = x_limit s1" "y_limit s2 = y_limit s1" "image_count s2 = image_count s1"
      using gcommand_frame[of env "PA sx sy" s1 msg s2] by simp_all
    have r: "r = Raise msg s2" using assms unfolding unf by (simp add: g)
    have rep: "gantry env (trace s @ pre) = Inl msg" using gcommand_reply(2)[OF g] t1 by simp
    have "trace (state_of r) = trace s @ pre @ GCommand (PA sx sy) # []"
      using fr(1) t1 by (simp add: r)
    moreover have "raise_ok env (trace s) (pre @ GCommand (PA sx sy) # []) r"
      using ap rep by (simp add: raise_ok_def r)
    moreover have "seq_post s ?P (moves []) r" using fr(4) i1 by (simp add: seq_post_def r)
    moreover have "stopped_break r" by (simp add: stopped_break_def r)
    ultimately show ?thesis using pl l1 fr(2,3)
      by (intro exI[of _ pre] exI[of _ "[]"]) (simp add: r)
  next
    case (Inr a)
    obtain reply s2 where a: "a = (reply, s2)" by (cases a)
    have g: "gcommand env (PA sx sy) s1 = Inr (reply, s2)" using Inr a by simp
    then have fr: "trace s2 = trace s1 @ [GCommand (PA sx sy)]"
      "x_limit s2 = x_limit s1" "y_limit s2 = y_limit s1" "image_count s2 = image_count s1"
      using gcommand_frame[of env "PA sx sy" s1 reply s2] by simp_all
    have rep: "gantry env (trace s @ pre) = Inr reply" using gcommand_reply(1)[OF g] t1 by simp
    from assms have tail: "(case wait_position env (pos_str sx sy) s2 of
                None \<Rightarrow> None
              | Some (Raise msg s3) \<Rightarrow> Some (Raise msg s3)
              | Some r \<Rightarrow>
                  (case read_stop env (state_of r) of
                     (stop, s4) \<Rightarrow>
                       if stop
                       then Some (Break (s4\<lparr>status_var := ''Imaging sequence stopped'',
                                             is_imaging := False\<rparr>))
                       else (case grid_loop env sx sy xi yi (nat nx) [0..<nat ny]
                                    (s4\<lparr>status_var := ''Imaging sequence started'',
                                        image_count := 0\<rparr>) of
                               None \<Rightarrow> None
                             | Some (Raise msg s5) \<Rightarrow> Some (Raise msg s5)
                             | Some r' \<Rightarrow>
                                 (case read_stop env (state_of r') of
                                    (stop', s6) \<Rightarrow>
                                      Some (Next (s6\<lparr>status_var :=
                                                       (if \<not> stop'
                                                        then ''Imaging sequence complete - ''
                                                               @ str_nat (image_count s6)
                                                               @ '' positions captured''
                                                        else ''Imaging sequence stopped''),
                                                     is_imaging := False\<rparr>)))))) = Some r"
      unfolding unf by (simp add: g)
    from imaging_tail[OF tail] have gd: "good env s2 r"
      and sp: "seq_post s2 ?P (moves (added s2 (state_of r))) r" by simp_all
    from gd obtain new where n: "trace (state_of r) = trace s2 @ new"
      "x_limit (state_of r) = x_limit s2" "y_limit (state_of r) = y_limit s2"
      "stop_imaging s2 \<longrightarrow> stop_imaging (state_of r) \<and> stop_reads new"
      "ReadStop True \<in> set new \<longrightarrow> stop_imaging (state_of r)"
      "quiet_after_stop new" "raise_ok env (trace s2) new r" "stopped_break r"
      by (rule goodE)
    have ad: "added s2 (state_of r) = new" using n(1) by (rule added_append)
    have "trace (state_of r) = trace s @ pre @ GCommand (PA sx sy) # new"
      using n(1) fr(1) t1 by simp
    moreover have "raise_ok env (trace s) (pre @ GCommand (PA sx sy) # new) r"
    proof -
      have "answered env (trace s) (pre @ [GCommand (PA sx sy)])" using ap rep by simp
      moreover have "raise_ok env (trace s @ pre @ [GCommand (PA sx sy)]) new r"
        using n(7) fr(1) t1 by simp
      ultimately have "raise_ok env (trace s) ((pre @ [GCommand (PA sx sy)]) @ new) r"
        by (rule raise_ok_append)
      then show ?thesis by simp
    qed
    moreover have "seq_post s ?P (moves new) r"
      using sp unfolding seq_post_def ad by (simp add: fr l1 i1)
    ultimately show ?thesis using pl l1 fr(2,3) n(2,3,5,6,8)
      by (intro exI[of _ pre] exI[of _ new]) simp
  qed
qed

text \<open>A record that is quiet after a set stop flag was read ends with that read.\<close>

lemma quiet_last:
  "quiet_after_stop es \<Longrightarrow> ReadStop True \<in> set es \<Longrightarrow> last es = ReadStop True"
proof (induction es)
  case Nil
  then show ?case by simp
next
  case (Cons e es)
  show ?case
  proof (cases "e = ReadStop True")
    case True
    with Cons.prems have "stop_reads es" by simp
    then have "es \<noteq> [] \<Longrightarrow> last es = ReadStop True"
      by (induction es) (auto split: if_splits)
    with True show ?thesis by simp
  next
    case False
    with Cons show ?thesis by auto
  qed
qed

lemma stop_reads_moves: "stop_reads b \<Longrightarrow> moves b = []"
  by (induction b) auto

lemma quiet_no_move:
  "quiet_after_stop (a @ ReadStop True # b) \<Longrightarrow> moves b = [] \<and> stop_reads b"
proof (induction a)
  case Nil
  then have "stop_reads b" by simp
  then show ?case by (simp add: stop_reads_moves)
next
  case (Cons e a)
  then show ?case by (cases "e = ReadStop True") (auto simp: stop_reads_moves)
qed

text \<open>
  What a command that was not answered says about the record: in a piece where all
  commands were answered there is none, and in one that ends with the exception it is
  the last event.
\<close>

lemma answered_split:
  "answered env h (a @ GCommand c # b) \<Longrightarrow> \<exists>reply. gantry env (h @ a) = Inr reply"
  by (cases "gantry env (h @ a)") simp_all

lemma raise_ok_failed:
  assumes "raise_ok env h new r" "new = a @ GCommand c # b" "gantry env (h @ a) = Inl msg"
  shows "b = [] \<and> r = Raise msg (state_of r)"
proof (cases r)
  case (Raise m s')
  with assms(1) have ne: "new \<noteq> []" and an: "answered env h (butlast new)"
    and lg: "gantry env (h @ butlast new) = Inl m" by (simp_all add: raise_ok_def)
  show ?thesis
  proof (cases "b = []")
    case True
    then have "butlast new = a" using assms(2) by simp
    with lg assms(3) have "m = msg" by simp
    with True Raise show ?thesis by simp
  next
    case False
    then have "butlast new = a @ GCommand c # butlast b" using assms(2)
      by (simp add: butlast_append)
    with an have "answered env h (a @ GCommand c # butlast b)" by simp
    then have "\<exists>reply. gantry env (h @ a) = Inr reply" by (rule answered_split)
    with assms(3) show ?thesis by simp
  qed
next
  case (Next s')
  with assms(1) have "answered env h new" by (simp add: raise_ok_def)
  then have "\<exists>reply. gantry env (h @ a) = Inr reply" unfolding assms(2) by (rule answered_split)
  with assms(3) show ?thesis by simp
next
  case (Break s')
  with assms(1) have "answered env h new" by (simp add: raise_ok_def)
  then have "\<exists>reply. gantry env (h @ a) = Inr reply" unfolding assms(2) by (rule answered_split)
  with assms(3) show ?thesis by simp
qed

section \<open>The thread returns once the user has stopped it\<close>

lemma read_stop_late:
  assumes "stop_at env = Some k" "k \<le> length (trace s)"
  shows "fst (read_stop env s)"
  using assms by (simp add: read_stop_def ui_stopped_def Let_def)

lemma wait_position_returns:
  assumes "stop_at env = Some k"
  shows "\<exists>r. wait_position env target s = Some r"
proof (induction "k - length (trace s)" arbitrary: s rule: less_induct)
  case less
  obtain stop s1 where rs: "read_stop env s = (stop, s1)" by (cases "read_stop env s")
  have t1: "trace s1 = trace s @ [ReadStop stop]"
    using rs by (auto simp: read_stop_def Let_def emit_def)
  show ?case
  proof (cases stop)
    case True
    then show ?thesis using rs by (subst wait_position.simps) simp
  next
    case False
    with rs read_stop_late[OF assms, of s] have lt: "length (trace s) < k" by (cases "k \<le> length (trace s)") simp_all
    show ?thesis
    proof (cases "gcommand env RP s1")
      case (Inl e)
      then show ?thesis using rs False by (subst wait_position.simps) (simp split: prod.splits)
    next
      case (Inr e)
      obtain pos s2 where e: "e = (pos, s2)" by (cases e)
      have t2: "trace s2 = trace s1 @ [GCommand RP]"
        using gcommand_frame(1)[of env RP s1 pos s2] Inr e by simp
      show ?thesis
      proof (cases "pos = target")
        case True
        then show ?thesis using rs False Inr e by (subst wait_position.simps) simp
      next
        case ne: False
        have "k - length (trace (sleep 250 s2)) < k - length (trace s)"
          using lt t1 t2 by (simp add: sleep_def emit_def)
        from less[OF this] obtain r where "wait_position env target (sleep 250 s2) = Some r"
          by blast
        then show ?thesis using rs False Inr e ne by (subst wait_position.simps) simp
      qed
    qed
  qed
qed

lemma wait_continue_returns:
  assumes "stop_at env = Some k"
  shows "\<exists>r. wait_continue env s = Some r"
proof (induction "k - length (trace s)" arbitrary: s rule: less_induct)
  case less
  show ?case
  proof (cases "continue_pressed env (trace s)")
    case True
    then show ?thesis by (subst wait_continue.simps) simp
  next
    case np: False
    obtain stop s1 where rs: "read_stop env s = (stop, s1)" by (cases "read_stop env s")
    have t1: "trace s1 = trace s @ [ReadStop stop]"
      using rs by (auto simp: read_stop_def Let_def emit_def)
    show ?thesis
    proof (cases stop)
      case True
      then show ?thesis using rs np by (subst wait_continue.simps) simp
    next
      case False
      with rs read_stop_late[OF assms, of s] have lt: "length (trace s) < k"
        by (cases "k \<le> length (trace s)") simp_all
      have "k - length (trace (sleep 100 s1)) < k - length (trace s)"
        using lt t1 by (simp add: sleep_def emit_def)
      from less[OF this] obtain r where "wait_continue env (sleep 100 s1) = Some r" by blast
      then show ?thesis using rs np False by (subst wait_continue.simps) simp
    qed
  qed
qed

lemma capture_returns:
  assumes "stop_at env = Some k"
  shows "\<exists>r. capture env y x s = Some r"
proof -
  define s1 where "s1 = s\<lparr>image_count := image_count s + 1,
      status_var := ''Position '' @ str_nat x @ '','' @ str_nat y @ '': Image #''
                      @ str_nat (image_count s + 1)\<rparr>"
  define s2 where "s2 = emit (Prompt (image_count s1) (str_nat x @ '','' @ str_nat y))
                          (s1\<lparr>waiting_for_photo := True\<rparr>)"
  have unf: "capture env y x s =
      (if auto_capture env (trace s1) then Some (sleep 1000 (take_both_photos env s1))
       else wait_continue env s2)"
    unfolding capture_def Let_def s1_def s2_def ..
  obtain r where "wait_continue env s2 = Some r"
    using wait_continue_returns[OF assms, of s2] by blast
  then show ?thesis unfolding unf by simp
qed

lemma visit_returns:
  assumes "stop_at env = Some k"
  shows "\<exists>r. visit env xi y x s = Some r"
proof -
  define s0 where "s0 = (if x \<noteq> 0
              then (if y mod 2 = 0 then s\<lparr>aim_x := aim_x s + xi\<rparr>
                    else s\<lparr>aim_x := aim_x s - xi\<rparr>)
              else s)"
  obtain stop s1 where rs: "read_stop env s0 = (stop, s1)" by (cases "read_stop env s0")
  define tail where "tail = (\<lambda>s2. case wait_position env (pos_str (aim_x s2) (aim_y s2))
                            (s2\<lparr>status_var :=
                                  ''Moving to position '' @ str_nat x @ '','' @ str_nat y\<rparr>) of
                       None \<Rightarrow> None
                     | Some (Raise msg s3) \<Rightarrow> Some (Raise msg s3)
                     | Some r \<Rightarrow>
                         (case read_stop env (state_of r) of
                            (stop', s4) \<Rightarrow>
                              if stop' then Some (Break s4)
                              else (case capture env y x s4 of
                                      None \<Rightarrow> None
                                    | Some s5 \<Rightarrow> Some (Next s5))))"
  have unf: "visit env xi y x s =
          (if stop then Some (Break s1)
          else if aim_x s1 > x_limit s1 \<or> aim_y s1 > y_limit s1
          then Some (Break (s1\<lparr>status_var :=
                                  ''Position '' @ str_nat x @ '','' @ str_nat y
                                    @ '' exceeds safety limits - stopping sequence'',
                                stop_imaging := True\<rparr>))
          else (case gcommand env (PA (aim_x s1) (aim_y s1)) s1 of
                  Inl (msg, s2) \<Rightarrow> Some (Raise msg s2)
                | Inr (reply, s2) \<Rightarrow> tail s2))"
    unfolding visit_def s0_def[symmetric] rs tail_def by simp
  have t: "\<exists>r. tail s2 = Some r" for s2
  proof -
    obtain w where w: "wait_position env (pos_str (aim_x s2) (aim_y s2))
                            (s2\<lparr>status_var :=
                                  ''Moving to position '' @ str_nat x @ '','' @ str_nat y\<rparr>)
                        = Some w"
      using wait_position_returns[OF assms] by blast
    obtain stop' s4 where rs': "read_stop env (state_of w) = (stop', s4)"
      by (cases "read_stop env (state_of w)")
    obtain s5 where c: "capture env y x s4 = Some s5"
      using capture_returns[OF assms, of y x s4] by blast
    show ?thesis unfolding tail_def w using rs' c by (cases w) simp_all
  qed
  show ?thesis
  proof (cases "gcommand env (PA (aim_x s1) (aim_y s1)) s1")
    case (Inl e)
    obtain msg s2 where "e = (msg, s2)" by (cases e)
    with Inl show ?thesis unfolding unf by simp
  next
    case (Inr e)
    obtain reply s2 where e: "e = (reply, s2)" by (cases e)
    obtain r where "tail s2 = Some r" using t by blast
    with Inr e show ?thesis unfolding unf by simp
  qed
qed

lemma row_loop_returns:
  assumes "stop_at env = Some k"
  shows "\<exists>r. row_loop env xi y xs s = Some r"
proof (induction xs arbitrary: s)
  case Nil
  then show ?case by simp
next
  case (Cons x xs)
  obtain v where v: "visit env xi y x s = Some v" using visit_returns[OF assms] by blast
  show ?case using v Cons by (cases v) simp_all
qed

lemma grid_loop_returns:
  assumes "stop_at env = Some k"
  shows "\<exists>r. grid_loop env sx sy xi yi nx ys s = Some r"
proof (induction ys arbitrary: s)
  case Nil
  then show ?case by simp
next
  case (Cons y ys)
  define s0 where "s0 = (if y = 0 then s\<lparr>aim_x := sx, aim_y := sy\<rparr> else s\<lparr>aim_y := aim_y s + yi\<rparr>)"
  obtain v where v: "row_loop env xi y [0..<nx] s0 = Some v"
    using row_loop_returns[OF assms] by blast
  obtain stop s2 where rs: "read_stop env (state_of v) = (stop, s2)"
    by (cases "read_stop env (state_of v)")
  have "\<exists>r. (case row_loop env xi y [0..<nx] s0 of
        None \<Rightarrow> None
      | Some (Raise msg s1) \<Rightarrow> Some (Raise msg s1)
      | Some r \<Rightarrow>
          (case read_stop env (state_of r) of
             (stop, s2) \<Rightarrow>
               if stop then Some (Break s2) else grid_loop env sx sy xi yi nx ys s2)) = Some r"
    unfolding v using rs Cons[of s2] by (cases v) simp_all
  then show ?case unfolding s0_def by simp
qed

lemma imaging_body_returns:
  assumes "stop_at env = Some k"
  shows "\<exists>r. imaging_body env sx sy xi yi nx ny s = Some r"
proof -
  define s1 where "s1 = (if camera_connected (s\<lparr>status_var := ''Moving to start position...''\<rparr>)
      then sleep 500 (control_filter env False (s\<lparr>status_var := ''Moving to start position...''\<rparr>))
      else s\<lparr>status_var := ''Moving to start position...''\<rparr>)"
  define loops where "loops = (\<lambda>s4. case grid_loop env sx sy xi yi (nat nx) [0..<nat ny]
                                    (s4\<lparr>status_var := ''Imaging sequence started'',
                                        image_count := 0\<rparr>) of
                               None \<Rightarrow> None
                             | Some (Raise msg s5) \<Rightarrow> Some (Raise msg s5)
                             | Some r' \<Rightarrow>
                                 (case read_stop env (state_of r') of
                                    (stop', s6) \<Rightarrow>
                                      Some (Next (s6\<lparr>status_var :=
                                                       (if \<not> stop'
                                                        then ''Imaging sequence complete - ''
                                                               @ str_nat (image_count s6)
                                                               @ '' positions captured''
                                                        else ''Imaging sequence stopped''),
                                                     is_imaging := False\<rparr>))))"
  define tail where "tail = (\<lambda>s2. case wait_position env (pos_str sx sy) s2 of
                None \<Rightarrow> None
              | Some (Raise msg s3) \<Rightarrow> Some (Raise msg s3)
              | Some r \<Rightarrow>
                  (case read_stop env (state_of r) of
                     (stop, s4) \<Rightarrow>
                       if stop
                       then Some (Break (s4\<lparr>status_var := ''Imaging sequence stopped'',
                                             is_imaging := False\<rparr>))
                       else loops s4))"
  have unf: "imaging_body env sx sy xi yi nx ny s =
      (case gcommand env (PA sx sy) s1 of
           Inl (msg, s2) \<Rightarrow> Some (Raise msg s2)
         | Inr (reply, s2) \<Rightarrow> tail s2)"
    unfolding imaging_body_def Let_def s1_def tail_def loops_def ..
  have l: "\<exists>r. loops s4 = Some r" for s4
  proof -
    obtain g where g: "grid_loop env sx sy xi yi (nat nx) [0..<nat ny]
                         (s4\<lparr>status_var := ''Imaging sequence started'', image_count := 0\<rparr>)
                       = Some g"
      using grid_loop_returns[OF assms] by blast
    obtain stop' s6 where rs': "read_stop env (state_of g) = (stop', s6)"
      by (cases "read_stop env (state_of g)")
    show ?thesis unfolding loops_def g using rs' by (cases g) simp_all
  qed
  have t: "\<exists>r. tail s2 = Some r" for s2
  proof -
    obtain w where w: "wait_position env (pos_str sx sy) s2 = Some w"
      using wait_position_returns[OF assms] by blast
    obtain stop s4 where rs: "read_stop env (state_of w) = (stop, s4)"
      by (cases "read_stop env (state_of w)")
    obtain r where "loops s4 = Some r" using l by blast
    then show ?thesis unfolding tail_def w using rs by (cases w) simp_all
  qed
  show ?thesis
  proof (cases "gcommand env (PA sx sy) s1")
    case (Inl e)
    obtain msg s2 where "e = (msg, s2)" by (cases e)
    with Inl show ?thesis unfolding unf by simp
  next
    case (Inr e)
    obtain reply s2 where e: "e = (reply, s2)" by (cases e)
    obtain r where "tail s2 = Some r" using t by blast
    with Inr e show ?thesis unfolding unf by simp
  qed
qed

lemma imaging_thread_returns:
  assumes "stop_at env = Some k"
  shows "\<exists>s'. imaging_thread env sx sy xi yi nx ny s = Some s'"
proof -
  obtain r where "imaging_body env sx sy xi yi nx ny s = Some r"
    using imaging_body_returns[OF assms] by blast
  then show ?thesis unfolding imaging_thread_def by (cases r) simp_all
qed

section \<open>How a run of the thread ends\<close>

lemma error_not_stopped: "''Imaging error: '' @ msg \<noteq> stopped_msg"
  by (simp add: stopped_msg_def)



lemma split_after:
  "p @ n = a @ e # b \<Longrightarrow> e \<notin> set p \<Longrightarrow> \<exists>a'. n = a' @ e # b \<and> a = p @ a'"
proof (induction p arbitrary: a)
  case Nil
  then show ?case by simp
next
  case (Cons x p)
  then show ?case by (cases a) auto
qed

text \<open>
  The events of a run are plain ones, the move to the start, and the events \<open>new\<close> of the
  polling and the loops. The run ends in one of three ways: with an exception, raised by
  the last event, a motion command; stopped; or complete, having moved to every target.
\<close>

lemma imaging_thread_post:
  assumes "imaging_thread env sx sy xi yi nx ny s = Some s'"
  shows "\<exists>pre new.
           added s s' = pre @ GCommand (PA sx sy) # new \<and> list_all plain pre \<and>
           quiet_after_stop new \<and>
           take (length (moves new)) (snake_path sx sy xi yi (nat nx) (nat ny)) = moves new \<and>
           list_all (\<lambda>t. fst t \<le> x_limit s \<and> snd t \<le> y_limit s) (moves new) \<and>
           image_count s' \<le> image_count s + length (moves new) \<and>
           \<not> is_imaging s' \<and>
           ((\<exists>msg. status_var s' = ''Imaging error: '' @ msg \<and>
                   is_gcommand (last (GCommand (PA sx sy) # new)) \<and>
                   gantry env (trace s @ butlast (pre @ GCommand (PA sx sy) # new)) = Inl msg \<and>
                   answered env (trace s) (butlast (pre @ GCommand (PA sx sy) # new))) \<or>
            (answered env (trace s) (pre @ GCommand (PA sx sy) # new) \<and>
             (status_var s' = stopped_msg \<and> stop_imaging s' \<or>
              status_var s' = complete_msg (image_count s') \<and> \<not> stop_imaging s' \<and>
              moves new = snake_path sx sy xi yi (nat nx) (nat ny) \<and>
              image_count s' = length (snake_path sx sy xi yi (nat nx) (nat ny)) \<and>
              ReadStop True \<notin> set new)))"
proof -
  let ?P = "snake_path sx sy xi yi (nat nx) (nat ny)"
  from assms obtain r where b: "imaging_body env sx sy xi yi nx ny s = Some r"
    by (cases "imaging_body env sx sy xi yi nx ny s") (simp_all add: imaging_thread_def)
  from imaging_body_post[OF b] obtain pre new where
    t: "trace (state_of r) = trace s @ pre @ GCommand (PA sx sy) # new"
    and pl: "list_all plain pre"
    and q: "quiet_after_stop new"
    and rsf: "ReadStop True \<in> set new \<longrightarrow> stop_imaging (state_of r)"
    and ro: "raise_ok env (trace s) (pre @ GCommand (PA sx sy) # new) r"
    and sb: "stopped_break r"
    and sp: "seq_post s ?P (moves new) r"
    by blast
  from sp have m: "take (length (moves new)) ?P = moves new"
    "list_all (\<lambda>t. fst t \<le> x_limit s \<and> snd t \<le> y_limit s) (moves new)"
    "image_count (state_of r) \<le> image_count s + length (moves new)"
    by (simp_all add: seq_post_def)
  have ad: "added s (state_of r) = pre @ GCommand (PA sx sy) # new" using t by (rule added_append)
  show ?thesis
  proof (cases r)
    case (Raise msg s2)
    with assms b have s': "s' = s2\<lparr>status_var := ''Imaging error: '' @ msg, is_imaging := False\<rparr>"
      by (simp add: imaging_thread_def)
    have "added s s' = pre @ GCommand (PA sx sy) # new" using ad by (simp add: added_def s' Raise)
    moreover have "image_count s' \<le> image_count s + length (moves new)"
      using m(3) by (simp add: s' Raise)
    moreover have "is_gcommand (last (GCommand (PA sx sy) # new))"
      "gantry env (trace s @ butlast (pre @ GCommand (PA sx sy) # new)) = Inl msg"
      "answered env (trace s) (butlast (pre @ GCommand (PA sx sy) # new))"
      using ro by (simp_all add: raise_ok_def Raise)
    moreover have "status_var s' = ''Imaging error: '' @ msg" "\<not> is_imaging s'"
      by (simp_all add: s')
    ultimately show ?thesis using pl q m(1,2) by blast
  next
    case (Break s2)
    with assms b have s': "s' = s2" by (simp add: imaging_thread_def)
    have "added s s' = pre @ GCommand (PA sx sy) # new" using ad by (simp add: s' Break)
    moreover have "image_count s' \<le> image_count s + length (moves new)"
      using m(3) by (simp add: s' Break)
    moreover have "answered env (trace s) (pre @ GCommand (PA sx sy) # new)"
      using ro by (simp add: raise_ok_def Break)
    moreover have "status_var s' = stopped_msg" "\<not> is_imaging s'" "stop_imaging s'"
      using sp sb by (simp_all add: seq_post_def stopped_break_def Break s')
    ultimately show ?thesis using pl q m(1,2) by blast
  next
    case (Next s2)
    with assms b have s': "s' = s2" by (simp add: imaging_thread_def)
    have "added s s' = pre @ GCommand (PA sx sy) # new" using ad by (simp add: s' Next)
    moreover have "image_count s' \<le> image_count s + length (moves new)"
      using m(3) by (simp add: s' Next)
    moreover have "answered env (trace s) (pre @ GCommand (PA sx sy) # new)"
      using ro by (simp add: raise_ok_def Next)
    moreover have "\<not> is_imaging s'" using sp by (simp add: seq_post_def Next s')
    moreover have "status_var s' = stopped_msg \<and> stop_imaging s' \<or>
              status_var s' = complete_msg (image_count s') \<and> \<not> stop_imaging s' \<and>
              moves new = ?P \<and> image_count s' = length ?P \<and> ReadStop True \<notin> set new"
    proof (cases "stop_imaging s'")
      case True
      then show ?thesis using sp by (simp add: seq_post_def Next s')
    next
      case False
      then have "ReadStop True \<notin> set new" using rsf by (auto simp: Next s')
      then show ?thesis using sp False by (simp add: seq_post_def Next s')
    qed
    ultimately show ?thesis using pl q m(1,2) by blast
  qed
qed

lemma imaging_thread_postE:
  assumes "imaging_thread env sx sy xi yi nx ny s = Some s'"
  obtains pre new where
    "added s s' = pre @ GCommand (PA sx sy) # new" "list_all plain pre"
    "quiet_after_stop new"
    "take (length (moves new)) (snake_path sx sy xi yi (nat nx) (nat ny)) = moves new"
    "list_all (\<lambda>t. fst t \<le> x_limit s \<and> snd t \<le> y_limit s) (moves new)"
    "image_count s' \<le> image_count s + length (moves new)"
    "\<not> is_imaging s'"
    "(\<exists>msg. status_var s' = ''Imaging error: '' @ msg \<and>
            is_gcommand (last (GCommand (PA sx sy) # new)) \<and>
            gantry env (trace s @ butlast (pre @ GCommand (PA sx sy) # new)) = Inl msg \<and>
            answered env (trace s) (butlast (pre @ GCommand (PA sx sy) # new))) \<or>
     (answered env (trace s) (pre @ GCommand (PA sx sy) # new) \<and>
      (status_var s' = stopped_msg \<and> stop_imaging s' \<or>
       status_var s' = complete_msg (image_count s') \<and> \<not> stop_imaging s' \<and>
       moves new = snake_path sx sy xi yi (nat nx) (nat ny) \<and>
       image_count s' = length (snake_path sx sy xi yi (nat nx) (nat ny)) \<and>
       ReadStop True \<notin> set new))"
  using imaging_thread_post[OF assms] by (elim exE conjE) (rule that)

text \<open>The three ways a run ends, one by one.\<close>

lemma run_ends:
  assumes "(\<exists>msg. status_var s' = ''Imaging error: '' @ msg \<and> G \<and> F msg \<and> A) \<or>
     (B \<and> (status_var s' = stopped_msg \<and> stop_imaging s' \<or>
       status_var s' = complete_msg (image_count s') \<and> \<not> stop_imaging s' \<and> M \<and> I \<and> R))"
  obtains (failed) msg where "status_var s' = ''Imaging error: '' @ msg" G "F msg" A
  | (stopped) B "status_var s' = stopped_msg" "stop_imaging s'"
  | (complete) B "status_var s' = complete_msg (image_count s')" "\<not> stop_imaging s'" M I R
  using assms by blast

section \<open>Runs on the bench\<close>



text \<open>
  A gantry whose replies never equal the target, and a user who stops the sequence when
  the record has twelve events: the thread polls until then.
\<close>

lemma packed_run:
  "map_option (\<lambda>s'. (trace s', status_var s', image_count s', stop_imaging s'))
     (imaging_thread (packed_env 12) 0 0 10 20 2 2 bench) =
   Some ([GCommand (PA 0 0), ReadStop False, GCommand RP, Sleep 250, ReadStop False,
          GCommand RP, Sleep 250, ReadStop False, GCommand RP, Sleep 250, ReadStop False,
          GCommand RP, Sleep 250, ReadStop True, ReadStop True],
         ''Imaging sequence stopped'', 0, True)"
  by code_simp

lemma packed_poll:
  "map_option (\<lambda>r. (case r of Next s' \<Rightarrow> True | _ \<Rightarrow> False, trace (state_of r),
                     stop_imaging (state_of r)))
     (wait_position (packed_env 7) (pos_str 0 0) bench) =
   Some (True,
         [ReadStop False, GCommand RP, Sleep 250, ReadStop False, GCommand RP, Sleep 250,
          ReadStop False, GCommand RP, Sleep 250, ReadStop True], True)"
  by code_simp



text \<open>One step of the inner loop to the left of the origin, and a manual move there.\<close>

lemma left_visit:
  "map_option (\<lambda>r. (case r of Next s' \<Rightarrow> True | _ \<Rightarrow> False, trace (state_of r),
                     image_count (state_of r)))
     (visit arrived_env (- 10) 0 1 bench) =
   Some (True,
         [ReadStop False, GCommand (PA (- 10) 0), ReadStop False, GCommand RP, ReadStop False,
          Sleep 1000], 1)"
  by code_simp

lemma left_visit_reply:
  "gantry arrived_env [ReadStop False, GCommand (PA (- 10) 0), ReadStop False] =
     Inr (pos_str (- 10) 0)"
  by code_simp

lemma left_move:
  "trace (move_gantry arrived_env (- 5000) 0 bench) = [GCommand (PA (- 5000) 0)]"
  by code_simp

lemma bench_fields:
  "trace bench = []" "connected bench" "\<not> stop_imaging bench" "x_limit bench = 100"
  "y_limit bench = 100" "current_x bench = 0" "current_y bench = 0" "aim_x bench = 0"
  "aim_y bench = 0" "image_count bench = 0"
  by (simp_all add: bench_def)

lemma added_bench: "added bench s' = trace s'"
  by (simp add: added_def bench_def)




section \<open>The claims about the imaging sequence and the manual moves\<close>





text \<open>
  C4 fails on the code. \<^verbatim>\<open>move_gantry\<close> and the loop of the sequencer compare the target
  with the limits, but \<^verbatim>\<open>return_to_start_position\<close> does not, and neither does the first move
  of \<^verbatim>\<open>_imaging_thread\<close>. With the gantry at \<open>x = 90\<close> the user sets the start position and
  then lowers both limits to 50: the manual move to where the gantry stands is blocked,
  while the return to the start is commanded to \<open>(90, 0)\<close>, and so is the first move of a
  sequence started there.
\<close>

theorem return_to_start_unchecked:
  "x_limit (apply_safety_limits 50 50 True (set_start_position (bench\<lparr>current_x := 90\<rparr>))) = 50 \<and>
   start_x (apply_safety_limits 50 50 True (set_start_position (bench\<lparr>current_x := 90\<rparr>)))
     = Some 90 \<and>
   status_var (move_gantry arrived_env 0 0
       (apply_safety_limits 50 50 True (set_start_position (bench\<lparr>current_x := 90\<rparr>))))
     = ''Movement blocked by safety limits'' \<and>
   trace (move_gantry arrived_env 0 0
       (apply_safety_limits 50 50 True (set_start_position (bench\<lparr>current_x := 90\<rparr>)))) = [] \<and>
   trace (return_to_start_position arrived_env
       (apply_safety_limits 50 50 True (set_start_position (bench\<lparr>current_x := 90\<rparr>))))
     = [GCommand (PA 90 0)] \<and>
   map_option (\<lambda>s'. moves (trace s'))
     (imaging_thread arrived_env 90 0 10 20 2 2
        (apply_safety_limits 50 50 True (set_start_position (bench\<lparr>current_x := 90\<rparr>))))
     = Some [(90, 0)]"
  by code_simp

text \<open>
  C7. The polling loop after a move asks for the position again and again, sleeping 250 ms
  after every reply that is not the target string, and ends when the stop flag is read
  set, when a reply is the very string it waits for, or with an exception of the gantry;
  nothing else ends it. And a step of the inner loop that comes through its capture has
  counted one image, has commanded one move, to the target \<^verbatim>\<open>aim_x\<close>, \<^verbatim>\<open>aim_y\<close>, and has
  had from the gantry the reply that is the string \<open>aim_x, aim_y\<close>.
\<close>

theorem position_poll:
  "(wait_position env target s = Some r \<longrightarrow>
      (\<exists>n. (\<forall>i<n. \<exists>reply. gantry env (trace s @ polls i @ [ReadStop False]) = Inr reply \<and>
                            reply \<noteq> target) \<and>
           (case r of
              Next s' \<Rightarrow>
                (stop_imaging s' \<and> trace s' = trace s @ polls n @ [ReadStop True]) \<or>
                (gantry env (trace s @ polls n @ [ReadStop False]) = Inr target \<and>
                 trace s' = trace s @ polls n @ [ReadStop False, GCommand RP])
            | Raise msg s' \<Rightarrow>
                gantry env (trace s @ polls n @ [ReadStop False]) = Inl msg \<and>
                trace s' = trace s @ polls n @ [ReadStop False, GCommand RP]
            | Break s' \<Rightarrow> False))) \<and>
   (visit env xi y x s = Some (Next s') \<longrightarrow>
      image_count s' = image_count s + 1 \<and>
      moves (added s s') = [(aim_x s', aim_y s')] \<and>
      (\<exists>h rest. trace s' = h @ GCommand RP # rest \<and> length (trace s) \<le> length h \<and>
                gantry env h = Inr (str_int (aim_x s') @ '', '' @ str_int (aim_y s'))))"
proof (intro conjI impI)
  assume "wait_position env target s = Some r"
  then show "\<exists>n. (\<forall>i<n. \<exists>reply. gantry env (trace s @ polls i @ [ReadStop False]) = Inr reply \<and>
                            reply \<noteq> target) \<and>
           (case r of
              Next s' \<Rightarrow>
                (stop_imaging s' \<and> trace s' = trace s @ polls n @ [ReadStop True]) \<or>
                (gantry env (trace s @ polls n @ [ReadStop False]) = Inr target \<and>
                 trace s' = trace s @ polls n @ [ReadStop False, GCommand RP])
            | Raise msg s' \<Rightarrow>
                gantry env (trace s @ polls n @ [ReadStop False]) = Inl msg \<and>
                trace s' = trace s @ polls n @ [ReadStop False, GCommand RP]
            | Break s' \<Rightarrow> False)"
    by (rule wait_position_polls)
next
  assume v: "visit env xi y x s = Some (Next s')"
  note g = visit_good[OF v]
  from g have rp: "run_post s [(next_aim_x xi y x (aim_x s), aim_y s)] (Next s')"
    and ax: "aim_x s' = next_aim_x xi y x (aim_x s)" and ay: "aim_y s' = aim_y s"
    by simp_all
  from rp show "image_count s' = image_count s + 1" by (simp add: run_post_def)
  from rp show "moves (added s s') = [(aim_x s', aim_y s')]" by (simp add: run_post_def ax ay)
  from g show "\<exists>h rest. trace s' = h @ GCommand RP # rest \<and> length (trace s) \<le> length h \<and>
                gantry env h = Inr (str_int (aim_x s') @ '', '' @ str_int (aim_y s'))"
    unfolding pos_str_def by blast
qed

theorem position_poll_witness:
  "\<exists>r s' n. wait_position (packed_env 7) (pos_str 0 0) bench = Some r \<and>
     visit arrived_env (- 10) 0 1 bench = Some (Next s') \<and>
     stop_imaging (state_of r) \<and> trace (state_of r) = polls n @ [ReadStop True] \<and>
     image_count s' = 1 \<and> moves (added bench s') = [(- 10, 0)]"
proof -
  from packed_poll obtain r where w: "wait_position (packed_env 7) (pos_str 0 0) bench = Some r"
    and rn: "case r of Next s' \<Rightarrow> True | _ \<Rightarrow> False"
    and tr: "trace (state_of r) = [ReadStop False, GCommand RP, Sleep 250, ReadStop False,
          GCommand RP, Sleep 250, ReadStop False, GCommand RP, Sleep 250, ReadStop True]"
    and sr: "stop_imaging (state_of r)"
    by (auto simp: map_option_eq_Some)
  from rn obtain s1 where r: "r = Next s1" by (cases r) simp_all
  from left_visit obtain v where v: "visit arrived_env (- 10) 0 1 bench = Some v"
    and vn: "case v of Next s' \<Rightarrow> True | _ \<Rightarrow> False"
    by (auto simp: map_option_eq_Some)
  from vn obtain s' where v': "v = Next s'" by (cases v) simp_all
  from position_poll[where env = "packed_env 7" and target = "pos_str 0 0" and s = bench
        and r = r, THEN conjunct1, rule_format, OF w]
  obtain n where "(stop_imaging s1 \<and> trace s1 = trace bench @ polls n @ [ReadStop True]) \<or>
       trace s1 = trace bench @ polls n @ [ReadStop False, GCommand RP]"
    unfolding r by auto
  then have "trace s1 = polls n @ [ReadStop True]"
    using tr unfolding r by (auto simp: bench_fields)
  moreover from position_poll[where env = arrived_env and xi = "- 10" and y = 0 and x = 1
        and s = bench and s' = s', THEN conjunct2, rule_format, OF v[unfolded v']]
  have "image_count s' = 1" "moves (added bench s') = [(aim_x s', aim_y s')]"
    by (simp_all add: bench_fields)
  moreover have "moves (added bench s') = [(- 10, 0)]"
    using left_visit v unfolding v' added_bench by simp
  ultimately show ?thesis using w v sr unfolding r v' by auto
qed

text \<open>
  C8. The user interface stops the sequence through the one flag: after
  \<^verbatim>\<open>stop_imaging_sequence\<close>, confirmed while a sequence runs, the next read of the flag by
  the thread finds it set. When the user interface sets the flag at some time, the thread
  returns; once one of its reads has found the flag set, every later event of the run
  is such a read again, so no move, no poll and no capture follows; and the run ends
  cleared, with the flag set and the status of a stopped sequence.
\<close>

theorem cooperative_stop:
  "(is_imaging s0 \<longrightarrow> fst (read_stop env (stop_imaging_sequence True s0))) \<and>
   (stop_at env = Some k \<longrightarrow>
      (\<exists>s'. imaging_thread env sx sy xi yi nx ny s = Some s' \<and>
            (\<forall>a b. added s s' = a @ ReadStop True # b \<longrightarrow>
               stop_reads b \<and> moves b = [] \<and>
               status_var s' = stopped_msg \<and> stop_imaging s' \<and> \<not> is_imaging s')))"
proof (intro conjI impI)
  assume "is_imaging s0"
  then show "fst (read_stop env (stop_imaging_sequence True s0))"
    by (simp add: stop_imaging_sequence_def read_stop_def Let_def)
next
  assume "stop_at env = Some k"
  then obtain s' where r: "imaging_thread env sx sy xi yi nx ny s = Some s'"
    using imaging_thread_returns by blast
  from r obtain pre new where
    a: "added s s' = pre @ GCommand (PA sx sy) # new" and pl: "list_all plain pre"
    and q: "quiet_after_stop new"
    and tk: "take (length (moves new)) (snake_path sx sy xi yi (nat nx) (nat ny)) = moves new"
    and lim: "list_all (\<lambda>t. fst t \<le> x_limit s \<and> snd t \<le> y_limit s) (moves new)"
    and ic: "image_count s' \<le> image_count s + length (moves new)"
    and ni: "\<not> is_imaging s'"
    and ends: "(\<exists>msg. status_var s' = ''Imaging error: '' @ msg \<and>
            is_gcommand (last (GCommand (PA sx sy) # new)) \<and>
            gantry env (trace s @ butlast (pre @ GCommand (PA sx sy) # new)) = Inl msg \<and>
            answered env (trace s) (butlast (pre @ GCommand (PA sx sy) # new))) \<or>
     (answered env (trace s) (pre @ GCommand (PA sx sy) # new) \<and>
      (status_var s' = stopped_msg \<and> stop_imaging s' \<or>
       status_var s' = complete_msg (image_count s') \<and> \<not> stop_imaging s' \<and>
       moves new = snake_path sx sy xi yi (nat nx) (nat ny) \<and>
       image_count s' = length (snake_path sx sy xi yi (nat nx) (nat ny)) \<and>
       ReadStop True \<notin> set new))"
    by (rule imaging_thread_postE)
  have all: "\<forall>a b. added s s' = a @ ReadStop True # b \<longrightarrow>
               stop_reads b \<and> moves b = [] \<and>
               status_var s' = stopped_msg \<and> stop_imaging s' \<and> \<not> is_imaging s'"
  proof (intro allI impI)
    fix a b
    assume h: "added s s' = a @ ReadStop True # b"
    have eq: "(pre @ [GCommand (PA sx sy)]) @ new = a @ ReadStop True # b"
      using h unfolding a by simp
    have nin: "ReadStop True \<notin> set (pre @ [GCommand (PA sx sy)])"
      using plain_no_stop_read[OF pl] by simp
    from split_after[OF eq nin] obtain a' where n: "new = a' @ ReadStop True # b" by blast
    from q have b: "moves b = [] \<and> stop_reads b" unfolding n by (rule quiet_no_move)
    have rt: "ReadStop True \<in> set new" by (simp add: n)
    from q rt have "last new = ReadStop True" by (rule quiet_last)
    then have ng: "\<not> is_gcommand (last (GCommand (PA sx sy) # new))" by (simp add: n)
    from ends have "status_var s' = stopped_msg \<and> stop_imaging s'"
    proof (cases rule: run_ends)
      case (failed msg)
      with ng show ?thesis by simp
    next
      case stopped
      then show ?thesis by simp
    next
      case complete
      with rt show ?thesis by simp
    qed
    with b ni show "stop_reads b \<and> moves b = [] \<and>
               status_var s' = stopped_msg \<and> stop_imaging s' \<and> \<not> is_imaging s'"
      by simp
  qed
  show "\<exists>s'. imaging_thread env sx sy xi yi nx ny s = Some s' \<and>
            (\<forall>a b. added s s' = a @ ReadStop True # b \<longrightarrow>
               stop_reads b \<and> moves b = [] \<and>
               status_var s' = stopped_msg \<and> stop_imaging s' \<and> \<not> is_imaging s')"
    by (rule exI[of _ s']) (intro conjI r all)
qed

theorem cooperative_stop_witness:
  "\<exists>s'. imaging_thread (packed_env 12) 0 0 10 20 2 2 bench = Some s' \<and>
        added bench s' =
          [GCommand (PA 0 0), ReadStop False, GCommand RP, Sleep 250, ReadStop False,
           GCommand RP, Sleep 250, ReadStop False, GCommand RP, Sleep 250, ReadStop False,
           GCommand RP, Sleep 250] @ ReadStop True # [ReadStop True] \<and>
        stop_reads [ReadStop True] \<and> status_var s' = stopped_msg \<and> stop_imaging s' \<and>
        \<not> is_imaging s' \<and>
        fst (read_stop (packed_env 12) (stop_imaging_sequence True bench))"
proof -
  have k: "stop_at (packed_env 12) = Some 12" by (simp add: packed_env_def)
  have i: "is_imaging bench" by (simp add: bench_def)
  note c = cooperative_stop[of bench "packed_env 12" 12 0 0 10 20 2 2 bench]
  from c[THEN conjunct2, rule_format, OF k] obtain s' where
    r: "imaging_thread (packed_env 12) 0 0 10 20 2 2 bench = Some s'"
    and all: "\<And>a b. added bench s' = a @ ReadStop True # b \<Longrightarrow>
               stop_reads b \<and> moves b = [] \<and>
               status_var s' = stopped_msg \<and> stop_imaging s' \<and> \<not> is_imaging s'"
    by blast
  have t: "added bench s' =
          [GCommand (PA 0 0), ReadStop False, GCommand RP, Sleep 250, ReadStop False,
           GCommand RP, Sleep 250, ReadStop False, GCommand RP, Sleep 250, ReadStop False,
           GCommand RP, Sleep 250] @ ReadStop True # [ReadStop True]"
    using packed_run r unfolding added_bench by simp
  from all[OF t] c[THEN conjunct1, rule_format, OF i] r t show ?thesis by blast
qed





end
